theory Spec2Isabelle
  imports Complex_Main "HOL-Library.Multiset"
begin

text \<open>
  A model of the market-data pipeline of the investment app (\<open>src/lib/kis.ts\<close>) and of
  its candidate verifier (\<open>src/lib/analysis.ts\<close>), with the properties of the
  specification that were checked against it. The definitions come first, each next to the
  source text it renders; the properties follow.
\<close>

section \<open>JavaScript strings\<close>

text \<open>
  A JavaScript string is modelled as the list of its Unicode code points (natural numbers).
  The regular expressions of the source have no \<open>u\<close> flag and name only characters of
  the Basic Multilingual Plane, so removing or testing them on code points is the same as on
  UTF-16 code units. \<open>js\<close> writes an ASCII literal.
\<close>

type_synonym jsstring = "nat list"

definition js :: "string \<Rightarrow> jsstring" where
  "js s = map of_char s"

text \<open>
  The characters matched by \<open>\s\<close> in a regular expression and removed by
  \<open>String.prototype.trim\<close>: the WhiteSpace and LineTerminator code points of ECMAScript
  (TAB, LF, VT, FF, CR, SP, NBSP, U+1680, U+2000..U+200A, U+2028, U+2029, U+202F, U+205F,
  U+3000, U+FEFF).
\<close>

definition isWhiteSpace :: "nat \<Rightarrow> bool" where
  "isWhiteSpace c \<longleftrightarrow>
     c = 9 \<or> c = 10 \<or> c = 11 \<or> c = 12 \<or> c = 13 \<or> c = 32 \<or> c = 160 \<or> c = 5760 \<or>
     (8192 \<le> c \<and> c \<le> 8202) \<or> c = 8232 \<or> c = 8233 \<or> c = 8239 \<or> c = 8287 \<or>
     c = 12288 \<or> c = 65279"

definition trim :: "jsstring \<Rightarrow> jsstring" where
  "trim s = rev (dropWhile isWhiteSpace (rev (dropWhile isWhiteSpace s)))"

text \<open>
  \<open>String.prototype.toUpperCase\<close> maps every code point on its own (the locale-independent
  upper-case mapping of Unicode has no context-sensitive rule). On ASCII it is written out;
  the mapping of the other code points (a table of the Unicode standard, which may yield
  several code points) is the parameter \<open>U\<close>.
\<close>

definition upperAscii :: "nat \<Rightarrow> nat" where
  "upperAscii c = (if 97 \<le> c \<and> c \<le> 122 then c - 32 else c)"

definition toUpperCase :: "(nat \<Rightarrow> jsstring) \<Rightarrow> jsstring \<Rightarrow> jsstring" where
  "toUpperCase U s = concat (map (\<lambda>c. if c < 128 then [upperAscii c] else U c) s)"

text \<open>The upper-case table restricted to caseless characters, for concrete examples.\<close>

definition caseless :: "nat \<Rightarrow> jsstring" where
  "caseless c = [c]"

definition isDigit :: "nat \<Rightarrow> bool" where
  "isDigit c \<longleftrightarrow> 48 \<le> c \<and> c \<le> 57"

text \<open>\<open>s.padStart(n, "0")\<close>\<close>

definition padStart0 :: "nat \<Rightarrow> jsstring \<Rightarrow> jsstring" where
  "padStart0 n s = replicate (n - length s) 48 @ s"

section \<open>Candidate verifier (analysis.ts)\<close>

text \<open>
  The type \<open>Candidate\<close> of \<open>types.ts\<close>. The market is a string; the markets that the
  specification calls domestic and foreign are \<open>"KR"\<close> and \<open>"US"\<close>.
\<close>

record Candidate =
  ticker :: jsstring
  name :: jsstring
  market :: jsstring
  rationale :: jsstring
  score :: real
  confidence :: real
  verified :: "bool option"
  stageTag :: "jsstring option"
  stageReason :: "jsstring option"
  scoreBreakdown :: "(real \<times> real \<times> real) option"

text \<open>
  The reference files \<open>universe/kr.json\<close>, \<open>universe/us.json\<close> and
  \<open>universe/kr_name_map.json\<close> are data of the repository; they are parameters here.
\<close>

record universe =
  krUniverse :: "jsstring list"
  usUniverse :: "jsstring list"
  krNameMap :: "jsstring \<rightharpoonup> jsstring"

definition krSet :: "(nat \<Rightarrow> jsstring) \<Rightarrow> universe \<Rightarrow> jsstring set" where
  "krSet U R = set (map (toUpperCase U) (krUniverse R))"

definition usSet :: "(nat \<Rightarrow> jsstring) \<Rightarrow> universe \<Rightarrow> jsstring set" where
  "usSet U R = set (map (toUpperCase U) (usUniverse R))"

text \<open>
  \<open>normalizeName\<close> is \<open>value.toUpperCase().replace(/[...]/g, "").trim()\<close>.
  The character class of \<open>normalizeName\<close> as the file has it:
  \<open>\s ( ) [ ] . -\<close> and the code point U+CA0C (decimal 51724), the bytes EC A8 8C of
  the source file. The middle dot U+00B7 (decimal 183) is not in the class.
\<close>

definition nameStripClass :: "nat \<Rightarrow> bool" where
  "nameStripClass c \<longleftrightarrow>
     isWhiteSpace c \<or> c = 40 \<or> c = 41 \<or> c = 91 \<or> c = 93 \<or> c = 46 \<or> c = 45 \<or> c = 51724"

definition normalizeName :: "(nat \<Rightarrow> jsstring) \<Rightarrow> jsstring \<Rightarrow> jsstring" where
  "normalizeName U v = trim (filter (\<lambda>c. \<not> nameStripClass c) (toUpperCase U v))"

text \<open>
  \<^verbatim>\<open>
  const validateCandidateTicker = (ticker: string, market: Market) => {
    const clean = ticker.toUpperCase();
    if (market === "KR") return krSet.has(clean);
    if (market === "US") return usSet.has(clean);
    return false;
  };
  \<close>
\<close>

definition validateCandidateTicker ::
  "(nat \<Rightarrow> jsstring) \<Rightarrow> universe \<Rightarrow> jsstring \<Rightarrow> jsstring \<Rightarrow> bool" where
  "validateCandidateTicker U R tk mk =
     (let clean = toUpperCase U tk in
      if mk = js ''KR'' then clean \<in> krSet U R
      else if mk = js ''US'' then clean \<in> usSet U R
      else False)"

text \<open>\<open>key ? krNameMapRecord[key] : undefined\<close>: an empty key is not looked up.\<close>

definition resolveKrTickerByName ::
  "(nat \<Rightarrow> jsstring) \<Rightarrow> universe \<Rightarrow> jsstring \<Rightarrow> jsstring option" where
  "resolveKrTickerByName U R nm =
     (let key = normalizeName U nm in if key \<noteq> [] then krNameMap R key else None)"

text \<open>
  \<^verbatim>\<open>
  const applyVerification = (candidates: Candidate[]) =>
    candidates.map((candidate) => {
      const verified = validateCandidateTicker(candidate.ticker, candidate.market);
      if (verified || candidate.market !== "KR") {
        return { ...candidate, verified };
      }
      const corrected = resolveKrTickerByName(candidate.name);
      if (corrected) {
        return { ...candidate, ticker: corrected, market: "KR", verified: true };
      }
      return { ...candidate, verified: false };
    });
  \<close>
  \<open>if (corrected)\<close> is false for \<open>undefined\<close> and for the empty string. The object
  spread \<open>{ ...candidate, f: v }\<close> is a record update.
\<close>

definition applyVerification ::
  "(nat \<Rightarrow> jsstring) \<Rightarrow> universe \<Rightarrow> Candidate list \<Rightarrow> Candidate list" where
  "applyVerification U R candidates =
     map (\<lambda>candidate.
        let v = validateCandidateTicker U R (ticker candidate) (market candidate) in
        if v \<or> market candidate \<noteq> js ''KR'' then candidate\<lparr>verified := Some v\<rparr>
        else (case resolveKrTickerByName U R (name candidate) of
                Some corrected \<Rightarrow>
                  if corrected \<noteq> [] then
                    candidate\<lparr>ticker := corrected, market := js ''KR'', verified := Some True\<rparr>
                  else candidate\<lparr>verified := Some False\<rparr>
              | None \<Rightarrow> candidate\<lparr>verified := Some False\<rparr>))
      candidates"

definition MAX_CANDIDATES :: nat where
  "MAX_CANDIDATES = 12"

definition clampCandidates :: "Candidate list \<Rightarrow> Candidate list" where
  "clampCandidates candidates = take MAX_CANDIDATES candidates"

section \<open>Indicator engine (kis.ts)\<close>

text \<open>
  This section renders the indicator engine over exact real arithmetic, the reading in
  which the scoring document states its formulas: every operation returns the exact
  result, and rounding error, overflow to \<open>Infinity\<close> and \<open>NaN\<close> do not occur. The
  program computes in binary64, so its results can differ from these in the last digits,
  and a score whose exact value lies at a rounding boundary of \<open>Math.round\<close> can come
  out one point apart. The properties of the composite score are proved for the exact
  reading. The RSI is rendered a second time over binary64, the arithmetic of the
  program, in the section that follows this one. \<open>undefined\<close> is \<open>None\<close>.
  The only division of the engine that is not guarded against a zero divisor is the one of
  \<open>change10\<close>; the bars that reach it have a positive close.
\<close>

text \<open>
  The field \<open>open\<close> of a bar is \<open>open_price\<close> here, and the field \<open>note\<close> of a
  Quote is \<open>note_text\<close>: both words are reserved in Isabelle.
\<close>

record DailyBar =
  date :: jsstring
  open_price :: real
  high :: real
  low :: real
  close :: real
  volume :: real

record Technical =
  marketScore :: real
  rsi :: "real option"
  ma20 :: "real option"
  ma60 :: "real option"
  volRatio :: "real option"
  atrPct :: "real option"

text \<open>\<open>values.slice(values.length - period).reduce((acc, v) => acc + v, 0) / period\<close>\<close>

definition sma :: "real list \<Rightarrow> nat \<Rightarrow> real option" where
  "sma vals period =
     (if length vals < period then None
      else Some (foldl (\<lambda>acc v. acc + v) 0 (drop (length vals - period) vals) / real period))"

text \<open>
  \<^verbatim>\<open>
  const computeRsi14 = (closes: number[]) => {
    if (closes.length < 15) return undefined;
    let gains = 0;
    let losses = 0;
    for (let i = closes.length - 14; i < closes.length; i += 1) {
      const change = closes[i] - closes[i - 1];
      if (change >= 0) gains += change;
      else losses += Math.abs(change);
    }
    const avgGain = gains / 14;
    const avgLoss = losses / 14;
    if (avgLoss === 0) return 100;
    const rs = avgGain / avgLoss;
    return 100 - 100 / (1 + rs);
  };
  \<close>
  \<open>rsiStep\<close> is one turn of the loop, on the pair \<open>(gains, losses)\<close>.
\<close>

definition rsiStep :: "real list \<Rightarrow> real \<times> real \<Rightarrow> nat \<Rightarrow> real \<times> real" where
  "rsiStep closes gl i =
     (let change = closes ! i - closes ! (i - 1) in
      if change \<ge> 0 then (fst gl + change, snd gl) else (fst gl, snd gl + \<bar>change\<bar>))"

definition computeRsi14 :: "real list \<Rightarrow> real option" where
  "computeRsi14 closes =
     (if length closes < 15 then None
      else
        let gl = foldl (rsiStep closes) (0, 0) [length closes - 14 ..< length closes];
            avgGain = fst gl / 14;
            avgLoss = snd gl / 14
        in if avgLoss = 0 then Some 100
           else let rs = avgGain / avgLoss in Some (100 - 100 / (1 + rs)))"

text \<open>
  \<^verbatim>\<open>
  const computeAtrPct = (bars: DailyBar[]) => {
    if (bars.length < 15) return undefined;
    const recent = bars.slice(-14);
    let sum = 0;
    for (let i = 0; i < recent.length; i += 1) {
      const bar = recent[i];
      const prevClose = i === 0 ? bar.close : recent[i - 1].close;
      const tr = Math.max(bar.high - bar.low, Math.abs(bar.high - prevClose),
                          Math.abs(bar.low - prevClose));
      sum += tr;
    }
    const atr = sum / recent.length;
    const lastClose = bars[bars.length - 1].close || 1;
    return atr / lastClose;
  };
  \<close>
  \<open>atrStep\<close> is one turn of the loop.
\<close>

definition atrStep :: "DailyBar list \<Rightarrow> real \<Rightarrow> nat \<Rightarrow> real" where
  "atrStep recent s i =
     (let bar = recent ! i;
          prevClose = (if i = 0 then close bar else close (recent ! (i - 1)));
          tr = max (high bar - low bar) (max \<bar>high bar - prevClose\<bar> \<bar>low bar - prevClose\<bar>)
      in s + tr)"

definition computeAtrPct :: "DailyBar list \<Rightarrow> real option" where
  "computeAtrPct bars =
     (if length bars < 15 then None
      else
        let recent = drop (length bars - 14) bars;
            s = foldl (atrStep recent) 0 [0 ..< length recent];
            atr = s / real (length recent);
            c = close (bars ! (length bars - 1));
            lastClose = (if c \<noteq> 0 then c else 1)
        in Some (atr / lastClose))"

text \<open>\<open>Math.round\<close> rounds to the nearest integer, a half towards plus infinity.\<close>

definition mathRound :: "real \<Rightarrow> real" where
  "mathRound x = of_int \<lfloor>x + 1 / 2\<rfloor>"

text \<open>
  The sub-scores of \<open>computeMarketScore\<close>, named as its local variables:
  \<^verbatim>\<open>
  let scoreTrend = 0;
  if (ma20 !== undefined) scoreTrend += lastClose > ma20 ? 5 : -5;
  if (ma20 !== undefined && ma60 !== undefined) scoreTrend += ma20 > ma60 ? 5 : -5;
  const change10 = closes.length >= 11
    ? (lastClose - closes[closes.length - 11]) / closes[closes.length - 11] : 0;
  const scoreMomentum = Math.max(-20, Math.min(20, change10 * 50));
  if (volRatio !== undefined) {
    if (volRatio > 2.0) scoreVolume = 10;
    else if (volRatio > 1.5) scoreVolume = 6;
    else if (volRatio < 0.5) scoreVolume = -6;
  }
  if (rsi !== undefined) { if (rsi > 75) scoreRsi = -7; else if (rsi < 25) scoreRsi = -6; }
  if (atrPct !== undefined) {
    if (atrPct > 0.10) scoreVolatility = -7; else if (atrPct > 0.07) scoreVolatility = -4;
  }
  const raw = scoreTrend + scoreMomentum + scoreVolume + scoreRsi + scoreVolatility;
  const marketScore = Math.round(((raw + 30) / 60) * 100);
  return { marketScore: Math.max(0, Math.min(100, marketScore)), rsi, ma20, ma60, volRatio, atrPct };
  \<close>
  With fewer than 60 bars the function returns \<open>{ marketScore: 50 }\<close> at once.
\<close>

definition scoreTrend :: "real option \<Rightarrow> real option \<Rightarrow> real \<Rightarrow> real" where
  "scoreTrend m20 m60 lastClose =
     (case m20 of None \<Rightarrow> 0 | Some a \<Rightarrow> (if lastClose > a then 5 else - 5)) +
     (case m20 of None \<Rightarrow> 0
      | Some a \<Rightarrow> (case m60 of None \<Rightarrow> 0 | Some b \<Rightarrow> (if a > b then 5 else - 5)))"

definition change10 :: "real list \<Rightarrow> real" where
  "change10 closes =
     (if length closes \<ge> 11
      then (closes ! (length closes - 1) - closes ! (length closes - 11)) /
           closes ! (length closes - 11)
      else 0)"

definition scoreMomentum :: "real list \<Rightarrow> real" where
  "scoreMomentum closes = max (- 20) (min 20 (change10 closes * 50))"

text \<open>
  \<open>avg3 && avg20 ? avg3 / avg20 : undefined\<close>: an average that is \<open>undefined\<close> or
  zero makes the ratio \<open>undefined\<close>.
\<close>

definition volumeRatio :: "real list \<Rightarrow> real option" where
  "volumeRatio volumes =
     (let avg3 = (if length volumes \<ge> 3
                  then Some (foldl (\<lambda>a v. a + v) 0 (drop (length volumes - 3) volumes) / 3)
                  else None);
          avg20 = (if length volumes \<ge> 20
                   then Some (foldl (\<lambda>a v. a + v) 0 (drop (length volumes - 20) volumes) / 20)
                   else None)
      in case avg3 of None \<Rightarrow> None
         | Some a3 \<Rightarrow> (case avg20 of None \<Rightarrow> None
             | Some a20 \<Rightarrow> if a3 \<noteq> 0 \<and> a20 \<noteq> 0 then Some (a3 / a20) else None))"

definition scoreVolume :: "real option \<Rightarrow> real" where
  "scoreVolume vr =
     (case vr of None \<Rightarrow> 0
      | Some r \<Rightarrow> if r > 2 then 10 else if r > 3 / 2 then 6 else if r < 1 / 2 then - 6 else 0)"

definition scoreRsi :: "real option \<Rightarrow> real" where
  "scoreRsi r = (case r of None \<Rightarrow> 0
      | Some x \<Rightarrow> if x > 75 then - 7 else if x < 25 then - 6 else 0)"

definition scoreVolatility :: "real option \<Rightarrow> real" where
  "scoreVolatility a = (case a of None \<Rightarrow> 0
      | Some x \<Rightarrow> if x > 10 / 100 then - 7 else if x > 7 / 100 then - 4 else 0)"

definition computeMarketScore :: "DailyBar list \<Rightarrow> Technical" where
  "computeMarketScore bars =
     (if length bars < 60
      then \<lparr>marketScore = 50, rsi = None, ma20 = None, ma60 = None, volRatio = None,
            atrPct = None\<rparr>
      else
        let closes = map close bars;
            m20 = sma closes 20;
            m60 = sma closes 60;
            lastClose = closes ! (length closes - 1);
            r = computeRsi14 closes;
            a = computeAtrPct bars;
            vr = volumeRatio (map volume bars);
            raw = scoreTrend m20 m60 lastClose + scoreMomentum closes + scoreVolume vr +
                  scoreRsi r + scoreVolatility a;
            ms = mathRound (((raw + 30) / 60) * 100)
        in \<lparr>marketScore = max 0 (min 100 ms), rsi = r, ma20 = m20, ma60 = m60,
            volRatio = vr, atrPct = a\<rparr>)"

section \<open>Binary64 arithmetic and the RSI of the program (kis.ts)\<close>

text \<open>
  The program computes in JavaScript numbers, which are IEEE 754 binary64 values. A
  \<open>number\<close> is a finite value \<open>Num x\<close>, \<open>Infinity\<close> (\<open>PosInf\<close>), \<open>-Infinity\<close>
  (\<open>NegInf\<close>) or \<open>NaN\<close>. The doubles are the values \<open>Num x\<close> that \<open>round64\<close> leaves
  as they are; the operations below return doubles, infinities or \<open>NaN\<close> whatever
  their arguments.

  The two zeros of binary64 are the one value \<open>Num 0\<close>. \<open>computeRsi14\<close> cannot tell
  them apart: it compares with \<open>>=\<close> and \<open>===\<close>, for which \<open>-0\<close> and \<open>0\<close> are equal, its
  additions and subtractions give the same result for either zero, and it divides by
  14, by an average loss that is not zero, and by \<open>1 + rs\<close>, never by a zero. (\<open>jsDiv\<close>
  takes a zero divisor as \<open>+0\<close>.)
\<close>

datatype number = Num real | PosInf | NegInf | NaN

text \<open>\<open>pow2 e\<close> is two to the power \<open>e\<close>, for an integer \<open>e\<close>.\<close>

definition pow2 :: "int \<Rightarrow> real" where
  "pow2 e = (if 0 \<le> e then 2 ^ nat e else 1 / 2 ^ nat (- e))"

text \<open>
  The exponent of a real \<open>x\<close>: the \<open>e\<close> with \<open>2^e \<le> |x| < 2^(e + 1)\<close>, found by halving
  (\<open>expoDown\<close>, for \<open>|x| \<ge> 1\<close>) or doubling (\<open>expoUp\<close>, for \<open>|x| < 1\<close>). It is not less than
  -1022, the exponent of the subnormal numbers, and the search stops at 1024, where
  every value rounds to an infinity.
\<close>

fun expoDown :: "nat \<Rightarrow> real \<Rightarrow> int" where
  "expoDown 0 x = 0"
| "expoDown (Suc n) x = (if x < 2 then 0 else 1 + expoDown n (x / 2))"

fun expoUp :: "nat \<Rightarrow> real \<Rightarrow> int" where
  "expoUp 0 x = 0"
| "expoUp (Suc n) x = (if 1 \<le> x then 0 else expoUp n (2 * x) - 1)"

definition exponent :: "real \<Rightarrow> int" where
  "exponent x = (if 1 \<le> \<bar>x\<bar> then expoDown 1024 \<bar>x\<bar> else expoUp 1022 \<bar>x\<bar>)"

text \<open>Rounding to the nearest integer, a tie to the even one.\<close>

definition roundEven :: "real \<Rightarrow> int" where
  "roundEven t =
     (let f = \<lfloor>t\<rfloor>; d = t - of_int f
      in if d < 1 / 2 then f else if 1 / 2 < d then f + 1 else if even f then f else f + 1)"

text \<open>
  The doubles with the exponent of \<open>x\<close> are the multiples of \<open>quantum x\<close> (53 significant
  bits). \<open>nearest x\<close> is the multiple nearest to \<open>x\<close>, a tie going to the even
  significand, and \<open>round64\<close> is the rounding of every binary64 operation (round to
  nearest, ties to even): a result of magnitude \<open>2^1024\<close> or more is an infinity.
\<close>

definition quantum :: "real \<Rightarrow> real" where
  "quantum x = pow2 (exponent x - 52)"

definition nearest :: "real \<Rightarrow> real" where
  "nearest x = of_int (roundEven (x / quantum x)) * quantum x"

definition round64 :: "real \<Rightarrow> number" where
  "round64 x =
     (let y = nearest x
      in if pow2 1024 \<le> y then PosInf else if y \<le> - pow2 1024 then NegInf else Num y)"

text \<open>
  The operators \<open>+\<close>, \<open>-\<close>, \<open>/\<close>, \<open>Math.abs\<close>, \<open>>=\<close> and \<open>===\<close> on numbers. A finite
  result is the exact result, rounded; an operation on \<open>NaN\<close>, \<open>Infinity - Infinity\<close>,
  \<open>Infinity / Infinity\<close> and \<open>0 / 0\<close> give \<open>NaN\<close>; every comparison with \<open>NaN\<close> is false.
\<close>

fun jsNeg :: "number \<Rightarrow> number" where
  "jsNeg (Num x) = Num (- x)"
| "jsNeg PosInf = NegInf"
| "jsNeg NegInf = PosInf"
| "jsNeg NaN = NaN"

fun jsAdd :: "number \<Rightarrow> number \<Rightarrow> number" where
  "jsAdd (Num x) (Num y) = round64 (x + y)"
| "jsAdd (Num x) PosInf = PosInf"
| "jsAdd (Num x) NegInf = NegInf"
| "jsAdd PosInf (Num y) = PosInf"
| "jsAdd PosInf PosInf = PosInf"
| "jsAdd NegInf (Num y) = NegInf"
| "jsAdd NegInf NegInf = NegInf"
| "jsAdd a b = NaN"

definition jsSub :: "number \<Rightarrow> number \<Rightarrow> number" where
  "jsSub a b = jsAdd a (jsNeg b)"

fun jsDiv :: "number \<Rightarrow> number \<Rightarrow> number" where
  "jsDiv (Num x) (Num y) =
     (if y = 0 then (if x = 0 then NaN else if 0 < x then PosInf else NegInf)
      else round64 (x / y))"
| "jsDiv (Num x) PosInf = Num 0"
| "jsDiv (Num x) NegInf = Num 0"
| "jsDiv PosInf (Num y) = (if 0 \<le> y then PosInf else NegInf)"
| "jsDiv NegInf (Num y) = (if 0 \<le> y then NegInf else PosInf)"
| "jsDiv a b = NaN"

fun jsAbs :: "number \<Rightarrow> number" where
  "jsAbs (Num x) = Num \<bar>x\<bar>"
| "jsAbs PosInf = PosInf"
| "jsAbs NegInf = PosInf"
| "jsAbs NaN = NaN"

fun jsGe :: "number \<Rightarrow> number \<Rightarrow> bool" where
  "jsGe (Num x) (Num y) = (y \<le> x)"
| "jsGe NaN b = False"
| "jsGe a NaN = False"
| "jsGe PosInf b = True"
| "jsGe a NegInf = True"
| "jsGe a b = False"

definition jsEq :: "number \<Rightarrow> number \<Rightarrow> bool" where
  "jsEq a b \<longleftrightarrow> a = b \<and> a \<noteq> NaN"

text \<open>
  \<open>computeRsi14\<close> as the program computes it, line by line as in the source text shown
  in the section on the indicator engine: \<open>rsiStep64\<close> is one turn of the loop on the
  pair \<open>(gains, losses)\<close>.
\<close>

definition rsiStep64 :: "number list \<Rightarrow> number \<times> number \<Rightarrow> nat \<Rightarrow> number \<times> number" where
  "rsiStep64 closes gl i =
     (let change = jsSub (closes ! i) (closes ! (i - 1)) in
      if jsGe change (Num 0) then (jsAdd (fst gl) change, snd gl)
      else (fst gl, jsAdd (snd gl) (jsAbs change)))"

definition computeRsi14_binary64 :: "number list \<Rightarrow> number option" where
  "computeRsi14_binary64 closes =
     (if length closes < 15 then None
      else
        let gl = foldl (rsiStep64 closes) (Num 0, Num 0) [length closes - 14 ..< length closes];
            avgGain = jsDiv (fst gl) (Num 14);
            avgLoss = jsDiv (snd gl) (Num 14)
        in if jsEq avgLoss (Num 0) then Some (Num 100)
           else let rs = jsDiv avgGain avgLoss
                in Some (jsSub (Num 100) (jsDiv (Num 100) (jsAdd (Num 1) rs))))"

text \<open>
  Four lists of fifteen closes. In \<open>absorbedLoss\<close> the price falls from 2 to 1 and then
  stands at \<open>2^60\<close>; in \<open>overflowing\<close> it goes twice from 1 to \<open>2^1023\<close> and back and then
  stands at 1; \<open>risingCloses\<close> is 1, 2, ..., 15; in \<open>dippingCloses\<close> the price falls from
  2 to 1 and then stands at 3. All of them are doubles.
\<close>

definition hugeClose :: real where
  "hugeClose = 2 ^ 60"

definition absorbedLoss :: "number list" where
  "absorbedLoss = Num 2 # Num 1 # replicate 13 (Num hugeClose)"

definition hugestClose :: real where
  "hugestClose = 2 ^ 1023"

definition overflowing :: "number list" where
  "overflowing = Num 1 # Num hugestClose # Num 1 # Num hugestClose # replicate 11 (Num 1)"

definition risingCloses :: "number list" where
  "risingCloses = map (\<lambda>k. Num (real k)) [1 ..< 16]"

definition dippingCloses :: "number list" where
  "dippingCloses = Num 2 # Num 1 # replicate 13 (Num 3)"

section \<open>Quotes and the per-ticker task (kis.ts)\<close>

record Fundamentals =
  roe :: "real option"
  eps :: "real option"
  bps :: "real option"

record Quote =
  ticker :: jsstring
  price :: "real option"
  changePercent :: "real option"
  volume :: "real option"
  fundamentals :: "Fundamentals option"
  technical :: "Technical option"
  note_text :: "jsstring option"

text \<open>A thrown value, with what \<open>error?.message\<close> reads from it.\<close>

datatype js_error = Thrown "jsstring option"

text \<open>\<open>error?.message || "KIS request error"\<close>\<close>

definition errorNote :: "js_error \<Rightarrow> jsstring" where
  "errorNote e =
     (case e of
        Thrown None \<Rightarrow> js ''KIS request error''
      | Thrown (Some m) \<Rightarrow> if m \<noteq> [] then m else js ''KIS request error'')"

text \<open>
  \<^verbatim>\<open>
  const normalizeTicker = (ticker: string) => {
    const clean = ticker.trim().toUpperCase();
    if (/^\d{1,6}$/.test(clean)) {
      return clean.padStart(6, "0");
    }
    return clean;
  };
  const isKrTicker = (ticker: string) => /^\d{6}$/.test(ticker);
  \<close>
\<close>

definition normalizeTicker :: "(nat \<Rightarrow> jsstring) \<Rightarrow> jsstring \<Rightarrow> jsstring" where
  "normalizeTicker U tk =
     (let clean = toUpperCase U (trim tk) in
      if 1 \<le> length clean \<and> length clean \<le> 6 \<and> list_all isDigit clean
      then padStart0 6 clean else clean)"

definition isKrTicker :: "jsstring \<Rightarrow> bool" where
  "isKrTicker tk \<longleftrightarrow> length tk = 6 \<and> list_all isDigit tk"

text \<open>
  What the calls awaited by one task settle with, given the normalized ticker:
  \<open>domesticAll\<close> is the outcome of
  \<open>Promise.all([fetchDomesticQuote, fetchDomesticFinancials, fetchDomesticDailyBars])\<close>
  (the three results, or the first rejection), \<open>overseas\<close> the outcome of
  \<open>fetchOverseasQuote\<close>.
\<close>

record taskEnv =
  domesticAll :: "jsstring \<Rightarrow> js_error + (Quote \<times> Fundamentals option \<times> DailyBar list)"
  overseas :: "jsstring \<Rightarrow> js_error + Quote"

text \<open>
  The task that \<open>fetchQuotes\<close> builds for one pair \<open>(original, normalized)\<close>: the body
  of its \<open>try\<close>, and the \<open>catch\<close> that turns a thrown value into a Quote. The result is
  what the task's promise settles with (\<open>Inl\<close>: rejected).
  \<^verbatim>\<open>
  const tasks = pairs.map((pair) => async (): Promise<Quote> => {
    try {
      if (isKrTicker(pair.normalized)) {
        const [quote, fundamentals, dailyBars] = await Promise.all([
          fetchDomesticQuote(pair.normalized),
          fetchDomesticFinancials(pair.normalized),
          fetchDomesticDailyBars(pair.normalized),
        ]);
        const technical = dailyBars.length >= 20 ? computeMarketScore(dailyBars) : undefined;
        return { ...quote, fundamentals, technical, ticker: pair.original };
      }
      const quote = await fetchOverseasQuote(pair.normalized);
      return { ...quote, ticker: pair.original };
    } catch (error: any) {
      return { ticker: pair.original, note: error?.message || "KIS request error" };
    }
  });
  \<close>
\<close>

definition quoteTask :: "taskEnv \<Rightarrow> jsstring \<times> jsstring \<Rightarrow> js_error + Quote" where
  "quoteTask env pair =
     (let original = fst pair; normalized = snd pair in
      if isKrTicker normalized then
        (case domesticAll env normalized of
           Inr (quote, fnd, dailyBars) \<Rightarrow>
             let tech = (if length dailyBars \<ge> 20 then Some (computeMarketScore dailyBars)
                         else None)
             in Inr (quote\<lparr>fundamentals := fnd, technical := tech, ticker := original\<rparr>)
         | Inl e \<Rightarrow>
             Inr \<lparr>ticker = original, price = None, changePercent = None, volume = None,
                  fundamentals = None, technical = None, note_text = Some (errorNote e)\<rparr>)
      else
        (case overseas env normalized of
           Inr quote \<Rightarrow> Inr (quote\<lparr>ticker := original\<rparr>)
         | Inl e \<Rightarrow>
             Inr \<lparr>ticker = original, price = None, changePercent = None, volume = None,
                  fundamentals = None, technical = None, note_text = Some (errorNote e)\<rparr>))"

section \<open>Concurrency scheduler (kis.ts)\<close>

text \<open>
  A JavaScript array with holes: \<open>None\<close> is a hole. \<open>results[current] = v\<close> beyond
  the end extends the array, leaving holes.
\<close>

type_synonym 'a jsarray = "'a option list"

definition arraySet :: "'a jsarray \<Rightarrow> nat \<Rightarrow> 'a \<Rightarrow> 'a jsarray" where
  "arraySet xs i v =
     (if i < length xs then xs[i := Some v]
      else xs @ replicate (i - length xs) None @ [Some v])"

text \<open>
  \<^verbatim>\<open>
  async function runWithConcurrency<T>(tasks: Array<() => Promise<T>>, limit: number) {
    const results: T[] = [];
    let index = 0;
    const workers = Array.from({ length: Math.min(limit, tasks.length) }, async () => {
      while (index < tasks.length) {
        const current = index;
        index += 1;
        results[current] = await tasks[current]();
      }
    });
    await Promise.allSettled(workers);
    return results;
  }
  \<close>
  A task is given by what its promise settles with: \<open>Inr v\<close> fulfilled with \<open>v\<close>,
  \<open>Inl e\<close> rejected with \<open>e\<close>.

  The state shared by the workers of \<open>runWithConcurrency\<close>: the cursor \<open>index\<close>, the
  array \<open>results\<close>, and, for every worker suspended at \<open>await tasks[current]()\<close>, its
  \<open>current\<close>. A worker that has left its loop, or whose task has thrown, is gone.
\<close>

record 'a pool =
  index :: nat
  results :: "'a jsarray"
  awaiting :: "nat list"

text \<open>
  A worker at the head of \<open>while (index < tasks.length)\<close>: it claims the next index and
  suspends on that task, or leaves the loop. JavaScript runs this without interruption.
\<close>

definition workerLoop :: "nat \<Rightarrow> 'a pool \<Rightarrow> 'a pool" where
  "workerLoop n p =
     (if index p < n then p\<lparr>index := index p + 1, awaiting := awaiting p @ [index p]\<rparr>
      else p)"

text \<open>
  The task awaited by the \<open>j\<close>-th suspended worker settles. Fulfilled: the worker stores
  the value and goes round its loop. Rejected: the \<open>await\<close> throws inside the worker, which
  has no \<open>catch\<close>, so the worker's own promise rejects and nothing is stored.
\<close>

definition settle :: "('e + 'a) list \<Rightarrow> nat \<Rightarrow> 'a pool \<Rightarrow> 'a pool" where
  "settle tasks j p =
     (let current = awaiting p ! j;
          p' = p\<lparr>awaiting := take j (awaiting p) @ drop (Suc j) (awaiting p)\<rparr>
      in case tasks ! current of
           Inr v \<Rightarrow> workerLoop (length tasks) (p'\<lparr>results := arraySet (results p') current v\<rparr>)
         | Inl e \<Rightarrow> p')"

text \<open>
  The order in which the awaited tasks settle is the environment's choice: \<open>sched\<close> lists,
  for each settlement, which of the suspended workers it concerns (modulo their number; the
  oldest when the list is used up). \<open>Promise.allSettled(workers)\<close> waits until no worker is
  suspended and never rejects; then \<open>results\<close> is returned.
\<close>

definition choice :: "nat list \<Rightarrow> nat \<Rightarrow> nat" where
  "choice sched k = (case sched of [] \<Rightarrow> 0 | c # _ \<Rightarrow> c mod k)"

definition poolMeasure :: "nat \<Rightarrow> 'a pool \<Rightarrow> nat" where
  "poolMeasure n p = (n - index p) + length (awaiting p)"

lemma settle_decreases:
  "awaiting p \<noteq> [] \<Longrightarrow> j < length (awaiting p) \<Longrightarrow>
   poolMeasure (length tasks) (settle tasks j p) < poolMeasure (length tasks) p"
  by (cases "tasks ! (awaiting p ! j)")
     (auto simp: settle_def workerLoop_def poolMeasure_def Let_def)

lemma choice_less: "0 < k \<Longrightarrow> choice sched k < k"
  by (simp add: choice_def split: list.split)

function drain :: "('e + 'a) list \<Rightarrow> nat list \<Rightarrow> 'a pool \<Rightarrow> 'a jsarray" where
  "drain tasks sched p =
     (if awaiting p = [] then results p
      else drain tasks (tl sched) (settle tasks (choice sched (length (awaiting p))) p))"
  by pat_completeness auto
termination
  by (relation "measure (\<lambda>(tasks, sched, p). poolMeasure (length tasks) p)")
     (auto intro!: settle_decreases choice_less)

definition runWithConcurrency :: "('e + 'a) list \<Rightarrow> nat \<Rightarrow> nat list \<Rightarrow> 'a jsarray" where
  "runWithConcurrency tasks limit sched =
     drain tasks sched
       ((workerLoop (length tasks) ^^ min limit (length tasks))
          \<lparr>index = 0, results = [], awaiting = []\<rparr>)"

text \<open>
  \<^verbatim>\<open>
  export async function fetchQuotes(tickers: string[]): Promise<Quote[]> {
    if (!tickers.length) return [];
    if (!isConfigured()) {
      return tickers.map((ticker) => ({ ticker, note: "KIS API keys not configured" }));
    }
    const pairs = tickers.map((ticker) => ({
      original: ticker,
      normalized: normalizeTicker(ticker),
    }));
    const tasks = pairs.map((pair) => async (): Promise<Quote> => { ... });
    return runWithConcurrency(tasks, 2);
  }
  \<close>
  \<open>configured\<close> is \<open>isConfigured()\<close>, \<open>env i\<close> what the calls of the \<open>i\<close>-th task
  settle with, \<open>sched\<close> the order in which the tasks settle.
\<close>

definition fetchQuotes ::
  "(nat \<Rightarrow> jsstring) \<Rightarrow> bool \<Rightarrow> (nat \<Rightarrow> taskEnv) \<Rightarrow> nat list \<Rightarrow> jsstring list \<Rightarrow> Quote jsarray"
  where
  "fetchQuotes U configured env sched tickers =
     (if tickers = [] then []
      else if \<not> configured then
        map (\<lambda>tk. Some \<lparr>ticker = tk, price = None, changePercent = None, volume = None,
                         fundamentals = None, technical = None,
                         note_text = Some (js ''KIS API keys not configured'')\<rparr>) tickers
      else
        let pairs = map (\<lambda>tk. (tk, normalizeTicker U tk)) tickers;
            tasks = map (\<lambda>(i, pair). quoteTask (env i) pair) (enumerate 0 pairs)
        in runWithConcurrency tasks 2 sched)"

section \<open>Example bar sequences\<close>




definition exampleQuote :: Quote where
  "exampleQuote =
     \<lparr>ticker = js ''005930'', price = Some 70000, changePercent = Some 1,
      volume = Some 1000, fundamentals = None, technical = None, note_text = None\<rparr>"

section \<open>Invariants of the scheduler\<close>

text \<open>
  What holds of the shared state whatever the tasks do: the cursor stays within the task
  list, the array is no longer than the cursor, a suspended worker holds a claimed index,
  and a filled slot holds the value its own task returned.
\<close>

definition poolOk :: "('e + 'a) list \<Rightarrow> 'a pool \<Rightarrow> bool" where
  "poolOk tasks p \<longleftrightarrow>
     index p \<le> length tasks \<and> length (results p) \<le> index p \<and>
     (\<forall>c\<in>set (awaiting p). c < index p) \<and>
     (\<forall>i<length (results p). \<forall>v. results p ! i = Some v \<longrightarrow> tasks ! i = Inr v)"

text \<open>
  What holds in addition while no task has thrown: every claimed index is either still
  awaited or has its slot filled, and a worker is alive as long as a task is unclaimed.
\<close>

definition poolFull :: "('e + 'a) list \<Rightarrow> 'a pool \<Rightarrow> bool" where
  "poolFull tasks p \<longleftrightarrow>
     distinct (awaiting p) \<and>
     (\<forall>i<index p. i \<in> set (awaiting p) \<or> (i < length (results p) \<and> results p ! i \<noteq> None)) \<and>
     (index p < length tasks \<longrightarrow> awaiting p \<noteq> [])"

definition failingEnv :: taskEnv where
  "failingEnv = \<lparr>domesticAll = (\<lambda>t. Inl (Thrown (Some (js ''fetch failed'')))),
                 overseas = (\<lambda>t. Inl (Thrown None))\<rparr>"

section \<open>Spot quote and the quote cache (kis.ts)\<close>

text \<open>
  Times are the milliseconds of \<open>Date.now()\<close>. The body of the spot-quote response after
  \<open>response.json()\<close>: \<open>rt_cd\<close> and \<open>msg1\<close> are \<open>None\<close> when the field is absent (or, for
  \<open>msg1\<close>, falsy); the three numbers are \<open>parseNumber\<close> of the fields of
  \<open>payload.output || {}\<close>, \<open>None\<close> for \<open>undefined\<close>.
\<close>

definition QUOTE_TTL_MS :: real where
  "QUOTE_TTL_MS = 20000"

record pricePayload =
  rt_cd :: "jsstring option"
  msg1 :: "jsstring option"
  stck_prpr :: "real option"
  prdy_ctrt :: "real option"
  acml_vol :: "real option"

text \<open>
  The module state that \<open>fetchDomesticQuote\<close> reads and writes: the map \<open>quoteCache\<close>
  (entry: data and \<open>expiresAt\<close>). \<open>priceRequests\<close> is not in the source: it records, in
  order, the ticker of every call of \<open>authorizedFetch\<close> on the spot-quote endpoint.
\<close>

record kis =
  quoteCache :: "jsstring \<rightharpoonup> (Quote \<times> real)"
  priceRequests :: "jsstring list"

text \<open>\<open>payload?.msg1 || "Domestic quote failed"\<close>\<close>

definition failureNote :: "pricePayload \<Rightarrow> jsstring" where
  "failureNote payload =
     (case msg1 payload of
        None \<Rightarrow> js ''Domestic quote failed''
      | Some m \<Rightarrow> if m \<noteq> [] then m else js ''Domestic quote failed'')"

text \<open>
  \<^verbatim>\<open>
  async function fetchDomesticQuote(ticker: string): Promise<Quote> {
    const cached = quoteCache.get(ticker);
    if (cached && cached.expiresAt > now()) {
      return cached.data;
    }
    ...
    await sleep(120);
    const response = await authorizedFetch(..., { method: "GET", headers: { ... } });
    const payload = await response.json();
    if (payload?.rt_cd !== "0") {
      return { ticker, note: payload?.msg1 || "Domestic quote failed" };
    }
    const output = payload.output || {};
    const quote = {
      ticker,
      price: parseNumber(output.stck_prpr),
      changePercent: parseNumber(output.prdy_ctrt),
      volume: parseNumber(output.acml_vol),
    };
    quoteCache.set(ticker, { data: quote, expiresAt: now() + QUOTE_TTL_MS });
    return quote;
  }
  \<close>
  \<open>fetchDomesticQuote(ticker)\<close>. \<open>inquirePrice ticker\<close> is what \<open>authorizedFetch\<close>
  followed by \<open>response.json()\<close> yields (\<open>Inl\<close>: one of them throws); \<open>t\<close> is \<open>now()\<close>
  at the cache lookup and \<open>t'\<close> is \<open>now()\<close> at the cache write. The result is the value
  returned or the error thrown, with the new state.
\<close>

definition fetchDomesticQuote ::
  "(jsstring \<Rightarrow> js_error + pricePayload) \<Rightarrow> real \<Rightarrow> real \<Rightarrow> jsstring \<Rightarrow> kis \<Rightarrow>
   (js_error + Quote) \<times> kis" where
  "fetchDomesticQuote inquirePrice t t' tk s =
     (let cached = (case quoteCache s tk of
                      None \<Rightarrow> None
                    | Some (data, expiresAt) \<Rightarrow> if expiresAt > t then Some data else None)
      in case cached of
           Some data \<Rightarrow> (Inr data, s)
         | None \<Rightarrow>
             let s1 = s\<lparr>priceRequests := priceRequests s @ [tk]\<rparr> in
             (case inquirePrice tk of
                Inl e \<Rightarrow> (Inl e, s1)
              | Inr payload \<Rightarrow>
                  if rt_cd payload \<noteq> Some (js ''0'') then
                    (Inr \<lparr>ticker = tk, price = None, changePercent = None, volume = None,
                          fundamentals = None, technical = None,
                          note_text = Some (failureNote payload)\<rparr>, s1)
                  else
                    let quote = \<lparr>ticker = tk, price = stck_prpr payload,
                                 changePercent = prdy_ctrt payload, volume = acml_vol payload,
                                 fundamentals = None, technical = None, note_text = None\<rparr>
                    in (Inr quote,
                        s1\<lparr>quoteCache := (quoteCache s1)(tk \<mapsto> (quote, t' + QUOTE_TTL_MS))\<rparr>)))"

text \<open>Example responses of the spot-quote endpoint.\<close>

definition rejectedPrice :: "jsstring \<Rightarrow> js_error + pricePayload" where
  "rejectedPrice tk =
     Inr \<lparr>rt_cd = Some (js ''1''), msg1 = Some (js ''rate limit''), stck_prpr = None,
          prdy_ctrt = None, acml_vol = None\<rparr>"

definition coldKis :: kis where
  "coldKis = \<lparr>quoteCache = Map.empty, priceRequests = []\<rparr>"

section \<open>Daily bars (kis.ts)\<close>

text \<open>
  One element of \<open>payload.output2\<close> as \<open>fetchDomesticDailyBars\<close> reads it:
  \<open>stck_bsop_date\<close> is \<open>String(row.stck_bsop_date || "")\<close>, the five numbers are
  \<open>parseNumber\<close> of the fields (\<open>None\<close> for \<open>undefined\<close>). In the payload,
  \<open>output2\<close> is \<open>None\<close> when the field is not an array, and a \<open>None\<close> element is a
  \<open>null\<close> or \<open>undefined\<close> row, on which reading a property throws.
\<close>

record dailyRow =
  stck_bsop_date :: jsstring
  stck_oprc :: "real option"
  stck_hgpr :: "real option"
  stck_lwpr :: "real option"
  stck_clpr :: "real option"
  row_acml_vol :: "real option"

record dailyPayload =
  daily_rt_cd :: "jsstring option"
  output2 :: "dailyRow option list option"

text \<open>\<open>x ?? 0\<close>\<close>

definition orZero :: "real option \<Rightarrow> real" where
  "orZero x = (case x of None \<Rightarrow> 0 | Some v \<Rightarrow> v)"

definition toBar :: "dailyRow \<Rightarrow> DailyBar" where
  "toBar row =
     \<lparr>date = stck_bsop_date row, open_price = orZero (stck_oprc row),
      high = orZero (stck_hgpr row), low = orZero (stck_lwpr row),
      close = orZero (stck_clpr row), volume = orZero (row_acml_vol row)\<rparr>"

text \<open>
  \<open>Array.prototype.sort\<close> with a comparison function: the sort is stable, and for a
  consistent comparison function its result is the sorted arrangement that a stable
  insertion sort produces.
\<close>

fun insertSorted :: "('a \<Rightarrow> 'a \<Rightarrow> int) \<Rightarrow> 'a \<Rightarrow> 'a list \<Rightarrow> 'a list" where
  "insertSorted cmp x [] = [x]"
| "insertSorted cmp x (y # ys) =
     (if cmp x y \<le> 0 then x # y # ys else y # insertSorted cmp x ys)"

definition arraySort :: "('a \<Rightarrow> 'a \<Rightarrow> int) \<Rightarrow> 'a list \<Rightarrow> 'a list" where
  "arraySort cmp xs = foldr (insertSorted cmp) xs []"

text \<open>
  \<^verbatim>\<open>
  const payload = await response.json();
  if (payload?.rt_cd !== "0") {
    return [];
  }
  const output2 = Array.isArray(payload.output2) ? payload.output2 : [];
  const bars = output2
    .map((row: any) => ({
      date: String(row.stck_bsop_date || ""),
      open: parseNumber(row.stck_oprc) ?? 0,
      high: parseNumber(row.stck_hgpr) ?? 0,
      low: parseNumber(row.stck_lwpr) ?? 0,
      close: parseNumber(row.stck_clpr) ?? 0,
      volume: parseNumber(row.acml_vol) ?? 0,
    }))
    .filter((bar: DailyBar) => bar.date && bar.close > 0)
    .sort((a: DailyBar, b: DailyBar) => a.date.localeCompare(b.date));
  return bars;
  \<close>
  \<open>fetchDomesticDailyBars(ticker)\<close>. \<open>dailyChart ticker\<close> is what \<open>authorizedFetch\<close>
  followed by \<open>response.json()\<close> yields; \<open>localeCompare\<close> is
  \<open>String.prototype.localeCompare\<close>, the collation of the host.
\<close>

definition fetchDomesticDailyBars ::
  "(jsstring \<Rightarrow> jsstring \<Rightarrow> int) \<Rightarrow> (jsstring \<Rightarrow> js_error + dailyPayload) \<Rightarrow> jsstring \<Rightarrow>
   js_error + DailyBar list" where
  "fetchDomesticDailyBars localeCompare dailyChart tk =
     (case dailyChart tk of
        Inl e \<Rightarrow> Inl e
      | Inr payload \<Rightarrow>
          if daily_rt_cd payload \<noteq> Some (js ''0'') then Inr []
          else
            let out2 = (case output2 payload of None \<Rightarrow> [] | Some rows \<Rightarrow> rows) in
            (case those out2 of
               None \<Rightarrow> Inl (Thrown (Some (js ''Cannot read properties of null'')))
             | Some rows \<Rightarrow>
                 Inr (arraySort (\<lambda>a b. localeCompare (date a) (date b))
                        (filter (\<lambda>bar. date bar \<noteq> [] \<and> close bar > 0) (map toBar rows)))))"

text \<open>
  Comparison of strings by code points, in place of \<open>localeCompare\<close> in the examples:
  on strings of digits, such as the dates \<open>YYYYMMDD\<close>, the two agree.
\<close>

fun codePointCompare :: "jsstring \<Rightarrow> jsstring \<Rightarrow> int" where
  "codePointCompare [] [] = 0"
| "codePointCompare [] (y # ys) = - 1"
| "codePointCompare (x # xs) [] = 1"
| "codePointCompare (x # xs) (y # ys) =
     (if x < y then - 1 else if y < x then 1 else codePointCompare xs ys)"

definition exampleRow :: "jsstring \<Rightarrow> real \<Rightarrow> dailyRow" where
  "exampleRow d c =
     \<lparr>stck_bsop_date = d, stck_oprc = Some c, stck_hgpr = Some c, stck_lwpr = Some c,
      stck_clpr = Some c, row_acml_vol = Some 100\<rparr>"

definition exampleChart :: "dailyRow option list \<Rightarrow> jsstring \<Rightarrow> js_error + dailyPayload" where
  "exampleChart rows tk = Inr \<lparr>daily_rt_cd = Some (js ''0''), output2 = Some rows\<rparr>"

section \<open>Credential manager (kis.ts)\<close>

text \<open>
  \<^verbatim>\<open>
  async function getAccessToken(): Promise<string> {
    if (cachedToken && cachedToken.expiresAt > now()) {
      return cachedToken.token;
    }
    if (tokenInFlight) {
      return tokenInFlight;
    }
    tokenInFlight = (async () => {
      let lastError: Error | null = null;
      for (let attempt = 0; attempt < 2; attempt += 1) {
        const response = await fetchWithTimeout(..., REQUEST_TIMEOUT_MS);
        if (response.ok) {
          const payload = await response.json();
          const token = payload?.access_token as string | undefined;
          if (!token) {
            lastError = new Error("KIS token response missing access_token");
          } else {
            const expiresIn = Number(payload?.expires_in ?? 0);
            const ttlMs = Number.isFinite(expiresIn) && expiresIn > 0
              ? expiresIn * 1000 : 23 * 60 * 60 * 1000;
            cachedToken = { token, expiresAt: now() + ttlMs - 60_000 };
            return token;
          }
        } else {
          lastError = new Error("KIS token request failed");
        }
        await sleep(400 + attempt * 300);
      }
      throw lastError ?? new Error("KIS token request failed");
    })();
    try {
      return await tokenInFlight;
    } finally {
      tokenInFlight = null;
    }
  }
  \<close>
\<close>

text \<open>
  JavaScript runs the code between two \<open>await\<close>s without interruption, so the token state
  changes in steps, one for each such piece of code:
  \<^item> \<open>getAccessToken c t\<close>: caller \<open>c\<close> calls \<open>getAccessToken()\<close> at time \<open>t\<close>; the
    call runs up to its first \<open>await\<close>, which for the caller that starts a refresh is
    after the first token request has been sent;
  \<^item> \<open>onTokenResponse r t\<close>: the token request is answered at time \<open>t\<close> and the refresh
    continues after \<open>await fetchWithTimeout(...)\<close> and \<open>await response.json()\<close>;
  \<^item> \<open>onWake\<close>: the refresh continues after \<open>await sleep(400 + attempt * 300)\<close>;
  \<^item> the event \<open>Invalidate\<close>: \<open>cachedToken = null\<close>, which \<open>authorizedFetch\<close> does
    on a 401 before it calls \<open>getAccessToken()\<close> again.

  When the refresh promise settles, the continuations of the callers that hold it run
  before any other event, the first of them the \<open>finally\<close> of the caller that created
  it (\<open>tokenInFlight = null\<close>): \<open>settleFlight\<close> does all of this in one step.

  \<open>tokenInFlight\<close> holds, for the pending promise, where the refresh stands (the loop
  counter \<open>attempt\<close>, whether it waits for the response or sleeps, \<open>lastError\<close>) and the
  callers the promise was returned to. Three fields are not in the source:
  \<open>tokenRequests\<close> counts the requests sent to the token endpoint, \<open>outstanding\<close> those
  sent and not yet answered, and \<open>delivered\<close> records what each caller's call settled
  with.
\<close>

datatype tokenResponse =
    Threw js_error
  | NotOk
  | Body "jsstring option" "real option"

datatype phase = Requesting | Sleeping

record flight =
  attempt :: nat
  phase :: phase
  lastError :: "js_error option"
  waiters :: "nat list"

record tokenState =
  cachedToken :: "(jsstring \<times> real) option"
  tokenInFlight :: "flight option"
  tokenRequests :: nat
  outstanding :: nat
  delivered :: "nat \<rightharpoonup> (js_error + jsstring)"

text \<open>\<open>cachedToken && cachedToken.expiresAt > now()\<close>\<close>

definition validToken :: "tokenState \<Rightarrow> real \<Rightarrow> jsstring option" where
  "validToken s t =
     (case cachedToken s of
        None \<Rightarrow> None
      | Some (token, expiresAt) \<Rightarrow> if expiresAt > t then Some token else None)"

definition getAccessToken :: "nat \<Rightarrow> real \<Rightarrow> tokenState \<Rightarrow> tokenState" where
  "getAccessToken c t s =
     (case validToken s t of
        Some token \<Rightarrow> s\<lparr>delivered := (delivered s)(c \<mapsto> Inr token)\<rparr>
      | None \<Rightarrow>
          (case tokenInFlight s of
             Some f \<Rightarrow> s\<lparr>tokenInFlight := Some (f\<lparr>waiters := waiters f @ [c]\<rparr>)\<rparr>
           | None \<Rightarrow>
               s\<lparr>tokenInFlight :=
                    Some \<lparr>attempt = 0, phase = Requesting, lastError = None, waiters = [c]\<rparr>,
                  tokenRequests := tokenRequests s + 1,
                  outstanding := outstanding s + 1\<rparr>))"

definition settleFlight :: "js_error + jsstring \<Rightarrow> tokenState \<Rightarrow> tokenState" where
  "settleFlight r s =
     (case tokenInFlight s of
        None \<Rightarrow> s
      | Some f \<Rightarrow>
          s\<lparr>tokenInFlight := None,
            delivered := (\<lambda>c. if c \<in> set (waiters f) then Some r else delivered s c)\<rparr>)"

text \<open>
  \<open>Body token expiresIn\<close> is a response with \<open>response.ok\<close>: \<open>token\<close> is
  \<open>payload?.access_token\<close> and \<open>expiresIn\<close> is \<open>Number(payload?.expires_in ?? 0)\<close> when
  that is finite. \<open>Threw e\<close>: \<open>fetchWithTimeout\<close> (network error, abort after the timeout)
  or \<open>response.json()\<close> throws, outside any \<open>try\<close> of the refresh.
\<close>

definition onTokenResponse :: "tokenResponse \<Rightarrow> real \<Rightarrow> tokenState \<Rightarrow> tokenState" where
  "onTokenResponse r t s =
     (case tokenInFlight s of
        None \<Rightarrow> s
      | Some f \<Rightarrow>
          if phase f \<noteq> Requesting then s
          else
            let s1 = s\<lparr>outstanding := outstanding s - 1\<rparr>;
                retry = (\<lambda>m. s1\<lparr>tokenInFlight :=
                           Some (f\<lparr>lastError := Some (Thrown (Some m)), phase := Sleeping\<rparr>)\<rparr>)
            in case r of
                 Threw e \<Rightarrow> settleFlight (Inl e) s1
               | NotOk \<Rightarrow> retry (js ''KIS token request failed'')
               | Body None expiresIn \<Rightarrow> retry (js ''KIS token response missing access_token'')
               | Body (Some token) expiresIn \<Rightarrow>
                   if token = [] then retry (js ''KIS token response missing access_token'')
                   else
                     let ttlMs = (case expiresIn of
                                    None \<Rightarrow> 23 * 60 * 60 * 1000
                                  | Some x \<Rightarrow> if x > 0 then x * 1000 else 23 * 60 * 60 * 1000)
                     in settleFlight (Inr token)
                          (s1\<lparr>cachedToken := Some (token, t + ttlMs - 60000)\<rparr>))"

definition onWake :: "tokenState \<Rightarrow> tokenState" where
  "onWake s =
     (case tokenInFlight s of
        None \<Rightarrow> s
      | Some f \<Rightarrow>
          if phase f \<noteq> Sleeping then s
          else if attempt f + 1 < 2 then
            s\<lparr>tokenInFlight := Some (f\<lparr>attempt := attempt f + 1, phase := Requesting\<rparr>),
              tokenRequests := tokenRequests s + 1,
              outstanding := outstanding s + 1\<rparr>
          else
            settleFlight
              (Inl (case lastError f of
                      None \<Rightarrow> Thrown (Some (js ''KIS token request failed''))
                    | Some e \<Rightarrow> e)) s)"

datatype tokenEvent =
    Call nat real
  | Response tokenResponse real
  | Wake
  | Invalidate

definition tokenStep :: "tokenState \<Rightarrow> tokenEvent \<Rightarrow> tokenState" where
  "tokenStep s e =
     (case e of
        Call c t \<Rightarrow> getAccessToken c t s
      | Response r t \<Rightarrow> onTokenResponse r t s
      | Wake \<Rightarrow> onWake s
      | Invalidate \<Rightarrow> s\<lparr>cachedToken := None\<rparr>)"

definition tokenRun :: "tokenEvent list \<Rightarrow> tokenState \<Rightarrow> tokenState" where
  "tokenRun evs s = foldl tokenStep s evs"

text \<open>The state of a fresh process.\<close>

definition coldToken :: tokenState where
  "coldToken = \<lparr>cachedToken = None, tokenInFlight = None, tokenRequests = 0,
                outstanding = 0, delivered = Map.empty\<rparr>"






section \<open>Verified properties\<close>

text \<open>
  Facts about the model shared by the proofs below.
\<close>

subsection \<open>Strings and names\<close>

lemmas js_eval = js_def toUpperCase_def upperAscii_def isWhiteSpace_def trim_def caseless_def

lemma dropWhile_none:
  "\<forall>c\<in>set s. \<not> P c \<Longrightarrow> dropWhile P s = s"
  by (cases s) simp_all

lemma trim_no_whitespace:
  "\<forall>c\<in>set s. \<not> isWhiteSpace c \<Longrightarrow> trim s = s"
  by (simp add: trim_def dropWhile_none)

text \<open>After the replacement no white space is left, so the final \<open>trim\<close> changes nothing.\<close>

lemma normalizeName_filter:
  "normalizeName U v = filter (\<lambda>c. \<not> nameStripClass c) (toUpperCase U v)"
  unfolding normalizeName_def
  by (rule trim_no_whitespace) (auto simp: nameStripClass_def)

subsection \<open>RSI\<close>

text \<open>
  The loop of \<open>computeRsi14\<close> keeps both sums non-negative, and the sum of losses stays
  where it was exactly when every change it has seen is non-negative.
\<close>

lemma rsi_fold_inv:
  "0 \<le> fst gl \<Longrightarrow> 0 \<le> snd gl \<Longrightarrow>
   0 \<le> fst (foldl (rsiStep closes) gl is) \<and>
   snd gl \<le> snd (foldl (rsiStep closes) gl is) \<and>
   (snd (foldl (rsiStep closes) gl is) = snd gl \<longleftrightarrow>
      (\<forall>i\<in>set is. closes ! i - closes ! (i - 1) \<ge> 0))"
proof (induction "is" arbitrary: gl)
  case Nil
  then show ?case by simp
next
  case (Cons i "is")
  let ?gl' = "rsiStep closes gl i"
  show ?case
  proof (cases "closes ! i - closes ! (i - 1) \<ge> 0")
    case True
    then have s: "?gl' = (fst gl + (closes ! i - closes ! (i - 1)), snd gl)"
      by (simp add: rsiStep_def)
    have "0 \<le> fst ?gl'" "0 \<le> snd ?gl'" using True Cons.prems by (simp_all add: s)
    from Cons.IH[OF this] True show ?thesis by (simp add: s)
  next
    case False
    then have s: "?gl' = (fst gl, snd gl + \<bar>closes ! i - closes ! (i - 1)\<bar>)"
      by (simp add: rsiStep_def)
    have "0 \<le> fst ?gl'" "0 \<le> snd ?gl'" using Cons.prems by (simp_all add: s)
    from Cons.IH[OF this] False show ?thesis by (auto simp: s)
  qed
qed

text \<open>
  In exact arithmetic the RSI of at least 15 closes lies in \<open>[0, 100]\<close> and is 100 if and
  only if each of the last 14 changes is non-negative. This is a fact about the formula,
  not about the program, whose rounding breaks the "only if" and whose overflow breaks
  the range: see the subsection on the RSI in binary64.
\<close>

lemma computeRsi14_exact:
  assumes "length closes \<ge> 15"
  shows "\<exists>r. computeRsi14 closes = Some r \<and> 0 \<le> r \<and> r \<le> 100 \<and>
     (r = 100 \<longleftrightarrow>
        (\<forall>i. length closes - 14 \<le> i \<and> i < length closes \<longrightarrow>
             closes ! i - closes ! (i - 1) \<ge> 0))"
proof -
  define gl where "gl = foldl (rsiStep closes) (0, 0) [length closes - 14 ..< length closes]"
  have inv: "0 \<le> fst gl" "0 \<le> snd gl"
    "snd gl = 0 \<longleftrightarrow> (\<forall>i\<in>set [length closes - 14 ..< length closes].
        closes ! i - closes ! (i - 1) \<ge> 0)"
    using rsi_fold_inv[of "(0, 0)" closes "[length closes - 14 ..< length closes]"]
    by (simp_all add: gl_def)
  let ?A = "\<forall>i. length closes - 14 \<le> i \<and> i < length closes \<longrightarrow>
             closes ! i - closes ! (i - 1) \<ge> 0"
  have A: "snd gl = 0 \<longleftrightarrow> ?A"
    unfolding inv(3) by fastforce
  show ?thesis
  proof (cases "snd gl = 0")
    case True
    then have "computeRsi14 closes = Some 100"
      using assms by (simp add: computeRsi14_def gl_def[symmetric] Let_def)
    moreover from True A have ?A by simp
    ultimately show ?thesis by simp
  next
    case False
    with inv(2) have l: "0 < snd gl" by simp
    define rs where "rs = (fst gl / 14) / (snd gl / 14)"
    have rs: "0 \<le> rs" using inv(1) l by (simp add: rs_def)
    have c: "computeRsi14 closes = Some (100 - 100 / (1 + rs))"
      using assms False by (simp add: computeRsi14_def gl_def[symmetric] Let_def rs_def)
    have pos: "0 < 100 / (1 + rs)" using rs by simp
    have le: "100 / (1 + rs) \<le> 100" using rs by (simp add: divide_le_eq)
    from False A have "\<not> ?A" by simp
    with c pos le show ?thesis by auto
  qed
qed

subsection \<open>Binary64: powers of two and the exponent\<close>

lemma pow2_powr: "pow2 e = 2 powr (of_int e)"
  by (simp add: pow2_def powr_int)

lemma pow2_pos: "0 < pow2 e"
  by (simp add: pow2_powr)

lemma pow2_add: "pow2 (a + b) = pow2 a * pow2 b"
  by (simp add: pow2_powr powr_add)

lemma pow2_nat: "pow2 (int n) = 2 ^ n"
  by (simp add: pow2_def)

lemma pow2_mono: "a \<le> b \<Longrightarrow> pow2 a \<le> pow2 b"
  by (simp add: pow2_powr)

lemma pow2_less_iff: "pow2 a < pow2 b \<longleftrightarrow> a < b"
  by (simp add: pow2_powr)

lemma pow2_le_iff: "pow2 a \<le> pow2 b \<longleftrightarrow> a \<le> b"
  by (simp add: pow2_powr)

lemma pow2_0: "pow2 0 = 1"
  by (simp add: pow2_def)

lemma pow2_1: "pow2 1 = 2"
  by (simp add: pow2_def)

lemma expoDown_nonneg: "0 \<le> expoDown n x"
  by (induction n arbitrary: x) simp_all

lemma expoDown_le: "1 \<le> x \<Longrightarrow> pow2 (expoDown n x) \<le> x"
proof (induction n arbitrary: x)
  case 0
  then show ?case by (simp add: pow2_0)
next
  case (Suc n)
  show ?case
  proof (cases "x < 2")
    case True
    with Suc.prems show ?thesis by (simp add: pow2_0)
  next
    case False
    then have "1 \<le> x / 2" by simp
    from Suc.IH[OF this] have "pow2 (expoDown n (x / 2)) * 2 \<le> x" by simp
    moreover have "pow2 (1 + expoDown n (x / 2)) = pow2 (expoDown n (x / 2)) * 2"
      by (simp add: pow2_add pow2_1)
    ultimately show ?thesis using False by simp
  qed
qed

lemma expoDown_eq:
  "2 ^ k \<le> x \<Longrightarrow> x < 2 ^ (k + 1) \<Longrightarrow> k < n \<Longrightarrow> expoDown n x = int k"
proof (induction n arbitrary: x k)
  case 0
  then show ?case by simp
next
  case (Suc n)
  show ?case
  proof (cases "x < 2")
    case True
    have "k = 0"
    proof (rule ccontr)
      assume "k \<noteq> 0"
      then have "(2::real) ^ 1 \<le> 2 ^ k" by (intro power_increasing) simp_all
      with Suc.prems(1) True show False by simp
    qed
    with True show ?thesis by simp
  next
    case False
    have "k \<noteq> 0" using False Suc.prems(2) by (cases k) auto
    then obtain j where j: "k = Suc j" by (cases k) auto
    have "2 ^ j \<le> x / 2" "x / 2 < 2 ^ (j + 1)" "j < n"
      using Suc.prems by (simp_all add: j)
    from Suc.IH[OF this] False show ?thesis by (simp add: j)
  qed
qed

lemma expoDown_big: "2 ^ n \<le> x \<Longrightarrow> expoDown n x = int n"
proof (induction n arbitrary: x)
  case 0
  then show ?case by simp
next
  case (Suc n)
  have "(2::real) * 1 \<le> 2 * 2 ^ n" by (intro mult_left_mono one_le_power) simp_all
  with Suc.prems have x: "\<not> x < 2" by (simp del: one_le_power)
  have "2 ^ n \<le> x / 2" using Suc.prems by simp
  from Suc.IH[OF this] x show ?case by simp
qed

lemma expoUp_nonpos: "expoUp n x \<le> 0"
  by (induction n arbitrary: x) (simp_all add: le_diff_eq order_trans[of _ 0])

lemma expoUp_ge: "- int n \<le> expoUp n x"
proof (induction n arbitrary: x)
  case 0
  then show ?case by simp
next
  case (Suc n)
  from Suc[of "2 * x"] show ?case by simp
qed

lemma expoUp_eq:
  "1 \<le> x * 2 ^ k \<Longrightarrow> x * 2 ^ k < 2 \<Longrightarrow> k \<le> n \<Longrightarrow> expoUp n x = - int k"
proof (induction n arbitrary: x k)
  case 0
  then show ?case by simp
next
  case (Suc n)
  show ?case
  proof (cases k)
    case 0
    with Suc.prems show ?thesis by simp
  next
    case (Suc j)
    have "x * 2 ^ k \<ge> x * 2" if "0 \<le> x"
      using that by (simp add: Suc mult_left_mono)
    have xpos: "0 < x"
    proof (rule ccontr)
      assume "\<not> 0 < x"
      then have "x * 2 ^ k \<le> 0" by (simp add: mult_le_0_iff)
      with Suc.prems(1) show False by simp
    qed
    have "(2::real) ^ 1 \<le> 2 ^ k" unfolding Suc by (intro power_increasing) simp_all
    then have "x * 2 \<le> x * 2 ^ k" using xpos by simp
    with Suc.prems(2) have x1: "\<not> 1 \<le> x" by simp
    have "1 \<le> (2 * x) * 2 ^ j" "(2 * x) * 2 ^ j < 2" "j \<le> n"
      using Suc.prems by (simp_all add: Suc mult.assoc mult.left_commute)
    from \<open>\<And>x k. \<lbrakk>1 \<le> x * 2 ^ k; x * 2 ^ k < 2; k \<le> n\<rbrakk> \<Longrightarrow> expoUp n x = - int k\<close>[OF this] x1
    show ?thesis by (simp add: Suc)
  qed
qed

lemma expoUp_small: "0 \<le> x \<Longrightarrow> x * 2 ^ n < 1 \<Longrightarrow> expoUp n x = - int n"
proof (induction n arbitrary: x)
  case 0
  then show ?case by simp
next
  case (Suc n)
  have "(1::real) \<le> 2 ^ Suc n" by (rule one_le_power) simp
  then have "x * 1 \<le> x * 2 ^ Suc n" using Suc.prems(1) by (intro mult_left_mono) simp_all
  with Suc.prems(2) have x1: "\<not> 1 \<le> x" by simp
  have "0 \<le> 2 * x" "(2 * x) * 2 ^ n < 1" using Suc.prems by (simp_all add: mult.assoc mult.left_commute)
  from Suc.IH[OF this] x1 show ?case by simp
qed

lemma exponent_eq:
  assumes "pow2 e \<le> \<bar>x\<bar>" "\<bar>x\<bar> < pow2 (e + 1)" "- 1022 \<le> e" "e \<le> 1023"
  shows "exponent x = e"
proof (cases "0 \<le> e")
  case True
  then have e: "e = int (nat e)" by simp
  have "1 \<le> pow2 e" using True pow2_mono[of 0 e] by (simp add: pow2_0)
  with assms(1) have x1: "1 \<le> \<bar>x\<bar>" by simp
  have a: "2 ^ nat e \<le> \<bar>x\<bar>" using assms(1) True by (simp add: pow2_def)
  have b: "\<bar>x\<bar> < 2 ^ (nat e + 1)" using assms(2) True by (simp add: pow2_def nat_add_distrib)
  have c: "nat e < 1024" using assms(4) by simp
  from expoDown_eq[OF a b c] x1 True show ?thesis by (simp add: exponent_def)
next
  case False
  then have neg: "e < 0" by simp
  have "pow2 (e + 1) \<le> pow2 0" using neg by (intro pow2_mono) simp
  with assms(2) have x1: "\<not> 1 \<le> \<bar>x\<bar>" by (simp add: pow2_0)
  have p: "pow2 e = 1 / 2 ^ nat (- e)" using neg by (simp add: pow2_def)
  have a: "1 \<le> \<bar>x\<bar> * 2 ^ nat (- e)" using assms(1) by (simp add: p field_simps)
  have "pow2 (e + 1) = 2 * pow2 e" by (simp add: pow2_add[of 1 e, simplified] pow2_1 add.commute)
  then have "\<bar>x\<bar> < 2 / 2 ^ nat (- e)" using assms(2) by (simp add: p)
  then have b: "\<bar>x\<bar> * 2 ^ nat (- e) < 2" by (simp add: field_simps)
  have c: "nat (- e) \<le> 1022" using assms(3) by simp
  from expoUp_eq[OF a b c] x1 neg show ?thesis by (simp add: exponent_def)
qed

lemma exponent_big: "pow2 1024 \<le> \<bar>x\<bar> \<Longrightarrow> exponent x = 1024"
proof -
  assume a: "pow2 1024 \<le> \<bar>x\<bar>"
  have "1 \<le> pow2 1024" using pow2_mono[of 0 1024] by (simp add: pow2_0)
  with a have x1: "1 \<le> \<bar>x\<bar>" by simp
  have "2 ^ 1024 \<le> \<bar>x\<bar>" using a by (simp add: pow2_def)
  from expoDown_big[OF this] x1 show ?thesis by (simp add: exponent_def)
qed

lemma exponent_lower: "1 \<le> \<bar>x\<bar> \<Longrightarrow> 0 \<le> exponent x \<and> pow2 (exponent x) \<le> \<bar>x\<bar>"
  by (simp add: exponent_def expoDown_nonneg expoDown_le)

lemma exponent_upper: "\<bar>x\<bar> < pow2 (k + 1) \<Longrightarrow> 0 \<le> k \<Longrightarrow> exponent x \<le> k"
proof (cases "1 \<le> \<bar>x\<bar>")
  case True
  assume "\<bar>x\<bar> < pow2 (k + 1)"
  with exponent_lower[OF True] have "pow2 (exponent x) < pow2 (k + 1)" by simp
  then show ?thesis by (simp add: pow2_less_iff)
next
  case False
  assume "0 \<le> k"
  moreover have "exponent x \<le> 0" using False by (simp add: exponent_def expoUp_nonpos)
  ultimately show ?thesis by simp
qed

lemma exponent_ge: "- 1022 \<le> exponent x"
proof (cases "1 \<le> \<bar>x\<bar>")
  case True
  from exponent_lower[OF this] show ?thesis by simp
next
  case False
  then show ?thesis using expoUp_ge[of 1022 "\<bar>x\<bar>"] by (simp add: exponent_def)
qed

subsection \<open>Binary64: rounding\<close>

text \<open>\<open>roundEven\<close> lies between the integers around its argument.\<close>

lemma roundEven_ge: "of_int k \<le> t \<Longrightarrow> k \<le> roundEven t"
proof -
  assume "of_int k \<le> t"
  then have "k \<le> \<lfloor>t\<rfloor>" by (simp add: le_floor_iff)
  then show ?thesis by (simp add: roundEven_def Let_def)
qed

lemma roundEven_le: "t \<le> of_int k \<Longrightarrow> roundEven t \<le> k"
proof (cases "t = of_int \<lfloor>t\<rfloor>")
  case True
  assume "t \<le> of_int k"
  then have "\<lfloor>t\<rfloor> \<le> k" by (metis floor_mono floor_of_int)
  moreover have "t - of_int \<lfloor>t\<rfloor> = 0" using True by simp
  ultimately show ?thesis by (simp add: roundEven_def Let_def)
next
  case False
  assume a: "t \<le> of_int k"
  have "of_int \<lfloor>t\<rfloor> < t" using False of_int_floor_le[of t] by linarith
  with a have "of_int \<lfloor>t\<rfloor> < (of_int k :: real)" by linarith
  then have "\<lfloor>t\<rfloor> + 1 \<le> k" by simp
  then show ?thesis by (simp add: roundEven_def Let_def)
qed

lemma roundEven_near: "\<bar>of_int m - t\<bar> < 1 / 2 \<Longrightarrow> roundEven t = m"
proof -
  assume a: "\<bar>of_int m - t\<bar> < 1 / 2"
  show ?thesis
  proof (cases "of_int m \<le> t")
    case True
    have "t < of_int m + 1" using a by linarith
    with True have f: "\<lfloor>t\<rfloor> = m" by (simp add: floor_unique)
    have "t - of_int m < 1 / 2" using a True by linarith
    with f show ?thesis by (simp add: roundEven_def Let_def)
  next
    case False
    have "of_int m - 1 \<le> t" using a by linarith
    then have "of_int (m - 1) \<le> t" by simp
    moreover have "t < of_int (m - 1) + 1" using False by simp
    ultimately have f: "\<lfloor>t\<rfloor> = m - 1" by (rule floor_unique)
    have "1 / 2 < t - of_int (m - 1)" using a False by simp
    with f show ?thesis by (simp add: roundEven_def Let_def)
  qed
qed

lemma roundEven_int: "roundEven (of_int m) = m"
  by (rule roundEven_near) simp

text \<open>
  Rounding does not cross a value of the grid: a bound that is a multiple of the quantum
  of \<open>x\<close> also bounds \<open>nearest x\<close>.
\<close>

lemma quantum_pos: "0 < quantum x"
  by (simp add: quantum_def pow2_pos)

lemma grid_value:
  assumes "exponent x - 52 \<le> j"
  shows "of_int (K * 2 ^ nat (j - (exponent x - 52))) * quantum x = of_int K * pow2 j"
proof -
  have "pow2 j = pow2 ((j - (exponent x - 52)) + (exponent x - 52))" by simp
  also have "\<dots> = pow2 (j - (exponent x - 52)) * quantum x"
    unfolding quantum_def by (rule pow2_add)
  also have "pow2 (j - (exponent x - 52)) = 2 ^ nat (j - (exponent x - 52))"
    using assms by (simp add: pow2_def)
  finally have "pow2 j = 2 ^ nat (j - (exponent x - 52)) * quantum x" .
  then show ?thesis by simp
qed

lemma grid_multiple:
  assumes "exponent x - 52 \<le> j"
  shows "of_int K * pow2 j / quantum x = of_int (K * 2 ^ nat (j - (exponent x - 52)))"
  unfolding grid_value[OF assms, of K, symmetric] using quantum_pos[of x] by simp

lemma nearest_upper:
  assumes "x \<le> of_int K * pow2 j" "exponent x - 52 \<le> j"
  shows "nearest x \<le> of_int K * pow2 j"
proof -
  let ?n = "K * 2 ^ nat (j - (exponent x - 52))"
  have "x / quantum x \<le> of_int K * pow2 j / quantum x"
    using assms(1) quantum_pos[of x] by (simp add: divide_right_mono)
  then have "x / quantum x \<le> of_int ?n" unfolding grid_multiple[OF assms(2)] .
  then have "roundEven (x / quantum x) \<le> ?n" by (rule roundEven_le)
  then have "of_int (roundEven (x / quantum x)) \<le> (of_int ?n :: real)" by (simp only: of_int_le_iff)
  then have "nearest x \<le> of_int ?n * quantum x"
    unfolding nearest_def using quantum_pos[of x] by (simp only: mult_le_cancel_right_pos)
  then show ?thesis unfolding grid_value[OF assms(2), of K] .
qed

lemma nearest_lower:
  assumes "of_int K * pow2 j \<le> x" "exponent x - 52 \<le> j"
  shows "of_int K * pow2 j \<le> nearest x"
proof -
  let ?n = "K * 2 ^ nat (j - (exponent x - 52))"
  have "of_int K * pow2 j / quantum x \<le> x / quantum x"
    using assms(1) quantum_pos[of x] by (simp add: divide_right_mono)
  then have "of_int ?n \<le> x / quantum x" unfolding grid_multiple[OF assms(2)] .
  then have "?n \<le> roundEven (x / quantum x)" by (rule roundEven_ge)
  then have "(of_int ?n :: real) \<le> of_int (roundEven (x / quantum x))" by (simp only: of_int_le_iff)
  then have "of_int ?n * quantum x \<le> nearest x"
    unfolding nearest_def using quantum_pos[of x] by (simp only: mult_le_cancel_right_pos)
  then show ?thesis unfolding grid_value[OF assms(2), of K] .
qed

lemma nearest_nonneg: "0 \<le> x \<Longrightarrow> 0 \<le> nearest x"
  using nearest_lower[of 0 "exponent x - 52" x] by simp

lemma nearest_nonpos: "x \<le> 0 \<Longrightarrow> nearest x \<le> 0"
  using nearest_upper[of x 0 "exponent x - 52"] by simp

lemma nearest_0: "nearest 0 = 0"
  using nearest_nonneg[of 0] nearest_nonpos[of 0] by simp

lemma round64_0: "round64 0 = Num 0"
  using pow2_pos[of 1024] by (simp add: round64_def nearest_0 Let_def)

lemma round64_nonneg:
  "0 \<le> x \<Longrightarrow> round64 x = PosInf \<or> (\<exists>y. round64 x = Num y \<and> 0 \<le> y)"
  using nearest_nonneg[of x] pow2_pos[of 1024] by (simp add: round64_def Let_def)

lemma round64_ge1:
  assumes "1 \<le> x"
  shows "round64 x = PosInf \<or> (\<exists>y. round64 x = Num y \<and> 1 \<le> y)"
proof -
  from assms have x1: "1 \<le> \<bar>x\<bar>" by simp
  from exponent_lower[OF x1] assms have e: "0 \<le> exponent x" "pow2 (exponent x) \<le> x" by simp_all
  from nearest_lower[of 1 "exponent x" x] e(2) have "pow2 (exponent x) \<le> nearest x" by simp
  moreover have "1 \<le> pow2 (exponent x)" using pow2_mono[OF e(1)] by (simp add: pow2_0)
  ultimately have "1 \<le> nearest x" by simp
  then show ?thesis using pow2_pos[of 1024] by (simp add: round64_def Let_def)
qed

lemma round64_bound:
  assumes "\<bar>x\<bar> \<le> of_int K * pow2 j" "of_int K * pow2 j < pow2 (k + 1)" "0 \<le> k" "k - 52 \<le> j"
    "k \<le> 1023"
  shows "\<exists>y. round64 x = Num y \<and> \<bar>y\<bar> \<le> of_int K * pow2 j"
proof -
  have "\<bar>x\<bar> < pow2 (k + 1)" using assms(1,2) by simp
  from exponent_upper[OF this assms(3)] assms(4) have e: "exponent x - 52 \<le> j" by simp
  have up: "nearest x \<le> of_int K * pow2 j"
    using assms(1) by (intro nearest_upper e) simp
  have "of_int (- K) * pow2 j \<le> x" using assms(1) by simp
  from nearest_lower[OF this e] have lo: "- (of_int K * pow2 j) \<le> nearest x" by simp
  have "pow2 (k + 1) \<le> pow2 1024" using assms(5) by (intro pow2_mono) simp
  with assms(2) have "of_int K * pow2 j < pow2 1024" by simp
  with up lo show ?thesis by (auto simp: round64_def Let_def)
qed

lemma round64_unit:
  "0 \<le> x \<Longrightarrow> x \<le> 100 \<Longrightarrow> \<exists>y. round64 x = Num y \<and> 0 \<le> y \<and> y \<le> 100"
proof -
  assume a: "0 \<le> x" "x \<le> 100"
  have "\<exists>y. round64 x = Num y \<and> \<bar>y\<bar> \<le> of_int 100 * pow2 0"
    by (rule round64_bound[where k = 6]) (use a in \<open>simp_all add: pow2_def\<close>)
  then obtain y where y: "round64 x = Num y" "\<bar>y\<bar> \<le> 100" by (auto simp: pow2_0)
  from round64_nonneg[OF a(1)] y(1) have "0 \<le> y" by simp
  with y show ?thesis by simp
qed

text \<open>Evaluation of a rounding whose result is known.\<close>

lemma round64_eqI:
  assumes "pow2 e \<le> \<bar>x\<bar>" "\<bar>x\<bar> < pow2 (e + 1)" "- 1022 \<le> e" "e \<le> 1023"
    and "\<bar>of_int m - x / pow2 (e - 52)\<bar> < 1 / 2"
    and "y = of_int m * pow2 (e - 52)"
    and "\<bar>y\<bar> < pow2 1024"
  shows "round64 x = Num y"
proof -
  have e: "exponent x = e" by (rule exponent_eq) fact+
  have "roundEven (x / pow2 (e - 52)) = m" by (rule roundEven_near) fact
  then have "nearest x = y" by (simp add: nearest_def quantum_def e assms(6))
  with assms(7) show ?thesis by (auto simp: round64_def Let_def)
qed

subsection \<open>RSI in binary64\<close>

text \<open>\<open>jsGe a (Num 0)\<close> says that \<open>a\<close> is a non-negative number or \<open>Infinity\<close>.\<close>

lemma jsGe_0_cases: "jsGe a (Num 0) \<longleftrightarrow> a = PosInf \<or> (\<exists>x. a = Num x \<and> 0 \<le> x)"
  by (cases a) simp_all

lemma round64_nonneg_ge: "0 \<le> x \<Longrightarrow> jsGe (round64 x) (Num 0)"
  using round64_nonneg[of x] by (auto simp: jsGe_0_cases)

lemma jsAdd_nonneg: "jsGe a (Num 0) \<Longrightarrow> jsGe b (Num 0) \<Longrightarrow> jsGe (jsAdd a b) (Num 0)"
  by (cases a; cases b) (simp_all add: round64_nonneg_ge)

lemma jsDiv14_nonneg: "jsGe a (Num 0) \<Longrightarrow> jsGe (jsDiv a (Num 14)) (Num 0)"
  by (cases a) (simp_all add: round64_nonneg_ge)

lemma jsDiv14_NaN: "jsDiv NaN (Num 14) = NaN"
  by simp

lemma jsAbs_cases: "jsAbs c = NaN \<or> jsGe (jsAbs c) (Num 0)"
  by (cases c) simp_all

lemma jsAdd_NaN: "jsAdd a NaN = NaN"
  by (cases a) simp_all

lemma jsDiv_NaN: "jsDiv a NaN = NaN"
  by (cases a) simp_all

text \<open>The loop keeps the gains non-negative, and the losses non-negative or \<open>NaN\<close>.\<close>

lemma rsiStep64_inv:
  assumes "jsGe (fst gl) (Num 0)" "snd gl = NaN \<or> jsGe (snd gl) (Num 0)"
  shows "jsGe (fst (rsiStep64 closes gl i)) (Num 0) \<and>
         (snd (rsiStep64 closes gl i) = NaN \<or> jsGe (snd (rsiStep64 closes gl i)) (Num 0))"
proof (cases "jsGe (jsSub (closes ! i) (closes ! (i - 1))) (Num 0)")
  case True
  with assms show ?thesis by (simp add: rsiStep64_def Let_def jsAdd_nonneg)
next
  case False
  let ?c = "jsAbs (jsSub (closes ! i) (closes ! (i - 1)))"
  have "jsAdd (snd gl) ?c = NaN \<or> jsGe (jsAdd (snd gl) ?c) (Num 0)"
    using assms(2) jsAbs_cases[of "jsSub (closes ! i) (closes ! (i - 1))"]
    by (auto simp: jsAdd_NaN jsAdd_nonneg)
  with False assms(1) show ?thesis by (simp add: rsiStep64_def Let_def)
qed

lemma rsi64_fold_inv:
  assumes "jsGe (fst gl) (Num 0)" "snd gl = NaN \<or> jsGe (snd gl) (Num 0)"
  shows "jsGe (fst (foldl (rsiStep64 closes) gl is)) (Num 0) \<and>
         (snd (foldl (rsiStep64 closes) gl is) = NaN \<or>
          jsGe (snd (foldl (rsiStep64 closes) gl is)) (Num 0))"
  using assms
proof (induction "is" arbitrary: gl)
  case Nil
  then show ?case by simp
next
  case (Cons i "is")
  from rsiStep64_inv[OF Cons.prems, of closes i]
  have "jsGe (fst (rsiStep64 closes gl i)) (Num 0)"
    "snd (rsiStep64 closes gl i) = NaN \<or> jsGe (snd (rsiStep64 closes gl i)) (Num 0)"
    by simp_all
  from Cons.IH[OF this] show ?case by simp
qed

text \<open>While every change is non-negative, the losses stay at zero.\<close>

lemma rsi64_fold_gains:
  assumes "\<forall>i\<in>set is. jsGe (jsSub (closes ! i) (closes ! (i - 1))) (Num 0)"
  shows "snd (foldl (rsiStep64 closes) gl is) = snd gl"
  using assms by (induction "is" arbitrary: gl) (simp_all add: rsiStep64_def Let_def)

text \<open>The last lines of \<open>computeRsi14\<close>, from the two averages on.\<close>

lemma rsi64_tail:
  assumes "jsGe ag (Num 0)" "jsGe al (Num 0)" "\<not> jsEq al (Num 0)"
  shows "(jsSub (Num 100) (jsDiv (Num 100) (jsAdd (Num 1) (jsDiv ag al))) = NaN \<and>
            ag = PosInf \<and> al = PosInf) \<or>
         (\<exists>r. jsSub (Num 100) (jsDiv (Num 100) (jsAdd (Num 1) (jsDiv ag al))) = Num r \<and>
              0 \<le> r \<and> r \<le> 100)"
proof -
  have res: "\<exists>r. jsSub (Num 100) (Num v) = Num r \<and> 0 \<le> r \<and> r \<le> 100"
    if "0 \<le> v" "v \<le> 100" for v
    using round64_unit[of "100 - v"] that by (simp add: jsSub_def)
  have fromT: "\<exists>r. jsSub (Num 100) (jsDiv (Num 100) t) = Num r \<and> 0 \<le> r \<and> r \<le> 100"
    if "t = PosInf \<or> (\<exists>u. t = Num u \<and> 1 \<le> u)" for t
  proof -
    from that show ?thesis
    proof
      assume "t = PosInf"
      then show ?thesis using res[of 0] by simp
    next
      assume "\<exists>u. t = Num u \<and> 1 \<le> u"
      then obtain u where u: "t = Num u" "1 \<le> u" by blast
      have "0 \<le> 100 / u" "100 / u \<le> 100" using u(2) by (simp_all add: divide_le_eq)
      from round64_unit[OF this] obtain v where "round64 (100 / u) = Num v" "0 \<le> v" "v \<le> 100"
        by blast
      with res[of v] u show ?thesis by simp
    qed
  qed
  have fromRs: "\<exists>r. jsSub (Num 100) (jsDiv (Num 100) (jsAdd (Num 1) rs)) = Num r \<and> 0 \<le> r \<and> r \<le> 100"
    if "jsGe rs (Num 0)" for rs
  proof (rule fromT)
    from that consider "rs = PosInf" | x where "rs = Num x" "0 \<le> x"
      by (auto simp: jsGe_0_cases)
    then show "jsAdd (Num 1) rs = PosInf \<or> (\<exists>u. jsAdd (Num 1) rs = Num u \<and> 1 \<le> u)"
    proof cases
      case 1
      then show ?thesis by simp
    next
      case 2
      then show ?thesis using round64_ge1[of "1 + x"] by simp
    qed
  qed
  from assms(1) consider "ag = PosInf" | x where "ag = Num x" "0 \<le> x"
    by (auto simp: jsGe_0_cases)
  then show ?thesis
  proof cases
    case 1
    from assms(2) consider "al = PosInf" | y where "al = Num y" "0 \<le> y"
      by (auto simp: jsGe_0_cases)
    then show ?thesis
    proof cases
      case 1
      with \<open>ag = PosInf\<close> show ?thesis by (simp add: jsSub_def)
    next
      case 2
      with \<open>ag = PosInf\<close> have "jsGe (jsDiv ag al) (Num 0)" by simp
      from fromRs[OF this] show ?thesis by blast
    qed
  next
    case 2
    from assms(2) consider "al = PosInf" | y where "al = Num y" "0 \<le> y"
      by (auto simp: jsGe_0_cases)
    then have "jsGe (jsDiv ag al) (Num 0)"
    proof cases
      case 1
      with 2 show ?thesis by simp
    next
      case 2
      with assms(3) have "0 < y" by (simp add: jsEq_def)
      with \<open>ag = Num x\<close> \<open>0 \<le> x\<close> 2 show ?thesis by (simp add: round64_nonneg_ge)
    qed
    from fromRs[OF this] show ?thesis by blast
  qed
qed

lemma rsi64_range:
  assumes "15 \<le> length closes"
  shows "\<exists>r. computeRsi14_binary64 closes = Some r \<and>
     (r = NaN \<or> (\<exists>x. r = Num x \<and> 0 \<le> x \<and> x \<le> 100)) \<and>
     ((\<forall>i. length closes - 14 \<le> i \<and> i < length closes \<longrightarrow>
           jsGe (jsSub (closes ! i) (closes ! (i - 1))) (Num 0)) \<longrightarrow> r = Num 100)"
proof -
  define gl where "gl = foldl (rsiStep64 closes) (Num 0, Num 0) [length closes - 14 ..< length closes]"
  define r where "r = (if jsEq (jsDiv (snd gl) (Num 14)) (Num 0) then Num 100
      else jsSub (Num 100) (jsDiv (Num 100) (jsAdd (Num 1)
             (jsDiv (jsDiv (fst gl) (Num 14)) (jsDiv (snd gl) (Num 14))))))"
  have c: "computeRsi14_binary64 closes = Some r"
    using assms by (simp add: computeRsi14_binary64_def gl_def[symmetric] Let_def r_def)
  have inv: "jsGe (fst gl) (Num 0)" "snd gl = NaN \<or> jsGe (snd gl) (Num 0)"
    using rsi64_fold_inv[of "(Num 0, Num 0)" closes "[length closes - 14 ..< length closes]"]
    by (simp_all add: gl_def)
  have range: "r = NaN \<or> (\<exists>x. r = Num x \<and> 0 \<le> x \<and> x \<le> 100)"
  proof (cases "jsEq (jsDiv (snd gl) (Num 14)) (Num 0)")
    case True
    then show ?thesis by (simp add: r_def)
  next
    case False
    from inv(2) show ?thesis
    proof
      assume "snd gl = NaN"
      with False show ?thesis by (simp add: r_def jsDiv_NaN jsAdd_NaN jsSub_def)
    next
      assume "jsGe (snd gl) (Num 0)"
      from rsi64_tail[OF jsDiv14_nonneg[OF inv(1)] jsDiv14_nonneg[OF this] False] False
      show ?thesis by (auto simp: r_def)
    qed
  qed
  have gains: "r = Num 100"
    if a: "\<forall>i. length closes - 14 \<le> i \<and> i < length closes \<longrightarrow>
           jsGe (jsSub (closes ! i) (closes ! (i - 1))) (Num 0)"
  proof -
    have "snd gl = Num 0"
      unfolding gl_def using a by (subst rsi64_fold_gains) simp_all
    then show ?thesis by (simp add: r_def round64_0 jsEq_def)
  qed
  from c range gains show ?thesis by blast
qed

text \<open>
  Closes far from the overflow threshold: with closes of magnitude at most \<open>2^1000\<close>
  each change is at most \<open>2^1001\<close>, and the two sums stay finite.
\<close>

lemma round64_pow2_bound:
  assumes "\<bar>x\<bar> \<le> pow2 k" "0 \<le> k" "k \<le> 1023"
  shows "\<exists>y. round64 x = Num y \<and> \<bar>y\<bar> \<le> pow2 k"
proof -
  have "\<exists>y. round64 x = Num y \<and> \<bar>y\<bar> \<le> of_int 1 * pow2 k"
    by (rule round64_bound[where k = k]) (use assms in \<open>simp_all add: pow2_less_iff\<close>)
  then show ?thesis by simp
qed

lemma round64_sum_bound:
  assumes "0 \<le> g" "g \<le> pow2 k" "0 \<le> c" "c \<le> pow2 k" "0 \<le> k" "k + 1 \<le> 1023"
  shows "\<exists>y. round64 (g + c) = Num y \<and> 0 \<le> y \<and> y \<le> pow2 (k + 1)"
proof -
  have "pow2 (k + 1) = 2 * pow2 k" using pow2_add[of 1 k] by (simp add: pow2_1 add.commute)
  with assms have "\<bar>g + c\<bar> \<le> pow2 (k + 1)" by simp
  from round64_pow2_bound[OF this] assms(5,6) obtain y where
    y: "round64 (g + c) = Num y" "\<bar>y\<bar> \<le> pow2 (k + 1)" by auto
  from round64_nonneg[of "g + c"] assms(1,3) y(1) have "0 \<le> y" by simp
  with y show ?thesis by simp
qed

lemma rsiStep64_bounded:
  assumes "closes ! i = Num a" "closes ! (i - 1) = Num b" "\<bar>a\<bar> \<le> pow2 1000" "\<bar>b\<bar> \<le> pow2 1000"
    and "gl = (Num g, Num l)" "0 \<le> g" "g \<le> pow2 k" "0 \<le> l" "l \<le> pow2 k"
    and "1001 \<le> k" "k + 1 \<le> 1023"
  shows "\<exists>g' l'. rsiStep64 closes gl i = (Num g', Num l') \<and>
           0 \<le> g' \<and> g' \<le> pow2 (k + 1) \<and> 0 \<le> l' \<and> l' \<le> pow2 (k + 1)"
proof -
  have p: "pow2 1001 = 2 * pow2 1000" using pow2_add[of 1 1000] by (simp add: pow2_1)
  have "\<bar>a - b\<bar> \<le> pow2 1001" using assms(3,4) unfolding p by linarith
  from round64_pow2_bound[OF this] obtain c where
    c: "round64 (a - b) = Num c" "\<bar>c\<bar> \<le> pow2 1001" by auto
  have ch: "jsSub (closes ! i) (closes ! (i - 1)) = Num c"
    unfolding assms(1,2) jsSub_def by (simp add: c(1))
  have k1: "pow2 1001 \<le> pow2 k" "pow2 k \<le> pow2 (k + 1)" using assms(10) by (simp_all add: pow2_le_iff)
  have k0: "0 \<le> k" using assms(10) by simp
  have step: "rsiStep64 closes gl i =
      (if 0 \<le> c then (round64 (g + c), Num l) else (Num g, round64 (l + \<bar>c\<bar>)))"
    unfolding rsiStep64_def ch assms(5) by (simp add: Let_def)
  show ?thesis
  proof (cases "0 \<le> c")
    case True
    have "c \<le> pow2 k" using c(2) k1(1) by simp
    from round64_sum_bound[OF assms(6,7) True this k0 assms(11)] obtain y where
      "round64 (g + c) = Num y" "0 \<le> y" "y \<le> pow2 (k + 1)" by blast
    with True assms(8,9) k1(2) show ?thesis by (simp add: step)
  next
    case False
    have "0 \<le> \<bar>c\<bar>" "\<bar>c\<bar> \<le> pow2 k" using c(2) k1(1) by simp_all
    from round64_sum_bound[OF assms(8,9) this k0 assms(11)] obtain y where
      "round64 (l + \<bar>c\<bar>) = Num y" "0 \<le> y" "y \<le> pow2 (k + 1)" by blast
    with False assms(6,7) k1(2) show ?thesis by (simp add: step)
  qed
qed

lemma rsi64_fold_bounded:
  assumes "\<forall>i\<in>set is. \<exists>a b. closes ! i = Num a \<and> closes ! (i - 1) = Num b \<and>
              \<bar>a\<bar> \<le> pow2 1000 \<and> \<bar>b\<bar> \<le> pow2 1000"
    and "gl = (Num g, Num l)" "0 \<le> g" "g \<le> pow2 k" "0 \<le> l" "l \<le> pow2 k"
    and "1001 \<le> k" "k + int (length is) \<le> 1023"
  shows "\<exists>g' l'. foldl (rsiStep64 closes) gl is = (Num g', Num l') \<and>
           0 \<le> g' \<and> g' \<le> pow2 (k + int (length is)) \<and>
           0 \<le> l' \<and> l' \<le> pow2 (k + int (length is))"
  using assms
proof (induction "is" arbitrary: gl g l k)
  case Nil
  then show ?case by simp
next
  case (Cons i "is")
  from Cons.prems(1) obtain a b where ab: "closes ! i = Num a" "closes ! (i - 1) = Num b"
    "\<bar>a\<bar> \<le> pow2 1000" "\<bar>b\<bar> \<le> pow2 1000" by auto
  have k1: "k + 1 \<le> 1023" using Cons.prems(8) by simp
  from rsiStep64_bounded[OF ab Cons.prems(2-7) k1] obtain g1 l1 where
    s: "rsiStep64 closes gl i = (Num g1, Num l1)" "0 \<le> g1" "g1 \<le> pow2 (k + 1)"
       "0 \<le> l1" "l1 \<le> pow2 (k + 1)" by blast
  have rest: "\<forall>i\<in>set is. \<exists>a b. closes ! i = Num a \<and> closes ! (i - 1) = Num b \<and>
              \<bar>a\<bar> \<le> pow2 1000 \<and> \<bar>b\<bar> \<le> pow2 1000"
    using Cons.prems(1) by simp
  have k2: "1001 \<le> k + 1" "k + 1 + int (length is) \<le> 1023"
    using Cons.prems(7,8) by simp_all
  have "k + 1 + int (length is) = k + int (length (i # is))" by simp
  with Cons.IH[OF rest s k2] show ?case by (simp only: foldl_Cons s(1))
qed

lemma jsDiv14_bounded:
  assumes "0 \<le> g" "g \<le> pow2 k" "0 \<le> k" "k \<le> 1023"
  shows "\<exists>y. jsDiv (Num g) (Num 14) = Num y \<and> 0 \<le> y"
proof -
  have "\<bar>g / 14\<bar> \<le> pow2 k" using assms(1,2) by simp
  from round64_pow2_bound[OF this assms(3,4)] obtain y where y: "round64 (g / 14) = Num y" by blast
  from round64_nonneg[of "g / 14"] assms(1) y have "0 \<le> y" by simp
  with y show ?thesis by simp
qed

lemma rsi64_finite:
  assumes "15 \<le> length closes"
    and "\<forall>i. length closes - 15 \<le> i \<and> i < length closes \<longrightarrow>
           (\<exists>x. closes ! i = Num x \<and> \<bar>x\<bar> \<le> 2 ^ 1000)"
  shows "\<exists>x. computeRsi14_binary64 closes = Some (Num x) \<and> 0 \<le> x \<and> x \<le> 100"
proof -
  define gl where "gl = foldl (rsiStep64 closes) (Num 0, Num 0) [length closes - 14 ..< length closes]"
  define r where "r = (if jsEq (jsDiv (snd gl) (Num 14)) (Num 0) then Num 100
      else jsSub (Num 100) (jsDiv (Num 100) (jsAdd (Num 1)
             (jsDiv (jsDiv (fst gl) (Num 14)) (jsDiv (snd gl) (Num 14))))))"
  have c: "computeRsi14_binary64 closes = Some r"
    using assms(1) by (simp add: computeRsi14_binary64_def gl_def[symmetric] Let_def r_def)
  have p: "pow2 1000 = 2 ^ 1000" by (simp add: pow2_def)
  have inputs: "\<forall>i\<in>set [length closes - 14 ..< length closes].
      \<exists>a b. closes ! i = Num a \<and> closes ! (i - 1) = Num b \<and> \<bar>a\<bar> \<le> pow2 1000 \<and> \<bar>b\<bar> \<le> pow2 1000"
  proof
    fix i assume "i \<in> set [length closes - 14 ..< length closes]"
    then have i: "length closes - 14 \<le> i" "i < length closes" by simp_all
    with assms(1) have "length closes - 15 \<le> i" "length closes - 15 \<le> i - 1" "i - 1 < length closes"
      by simp_all
    with assms(2) i(2) obtain a b where "closes ! i = Num a" "\<bar>a\<bar> \<le> 2 ^ 1000"
      "closes ! (i - 1) = Num b" "\<bar>b\<bar> \<le> 2 ^ 1000" by meson
    then show "\<exists>a b. closes ! i = Num a \<and> closes ! (i - 1) = Num b \<and>
        \<bar>a\<bar> \<le> pow2 1000 \<and> \<bar>b\<bar> \<le> pow2 1000"
      unfolding p by blast
  qed
  have len: "int (length [length closes - 14 ..< length closes]) = 14" using assms(1) by simp
  from rsi64_fold_bounded[OF inputs, of "(Num 0, Num 0)" 0 0 1001]
  obtain g l where gl: "gl = (Num g, Num l)" "0 \<le> g" "g \<le> pow2 1015" "0 \<le> l" "l \<le> pow2 1015"
    unfolding len gl_def[symmetric] using pow2_pos[of 1001] by auto
  from jsDiv14_bounded[OF gl(2,3)] obtain ag where ag: "round64 (g / 14) = Num ag" "0 \<le> ag"
    by auto
  from jsDiv14_bounded[OF gl(4,5)] obtain al where al: "round64 (l / 14) = Num al" "0 \<le> al"
    by auto
  show ?thesis
  proof (cases "jsEq (Num al) (Num 0)")
    case True
    then have "r = Num 100" by (simp add: r_def gl(1) al(1))
    with c show ?thesis by simp
  next
    case False
    from rsi64_tail[of "Num ag" "Num al"] ag(2) al(2) False
    obtain x where "jsSub (Num 100) (jsDiv (Num 100) (jsAdd (Num 1) (jsDiv (Num ag) (Num al)))) = Num x"
      "0 \<le> x" "x \<le> 100" by auto
    with False have "r = Num x" by (simp add: r_def gl(1) ag(1) al(1))
    with c \<open>0 \<le> x\<close> \<open>x \<le> 100\<close> show ?thesis by simp
  qed
qed

text \<open>The run of the program on \<open>absorbedLoss\<close> and on \<open>overflowing\<close>, operation by operation.\<close>

lemma rsiStep64_gain:
  assumes "closes ! i = a" "closes ! (i - 1) = b" "jsSub a b = Num c" "0 \<le> c"
  shows "rsiStep64 closes (g, l) i = (jsAdd g (Num c), l)"
  unfolding rsiStep64_def assms(1,2,3) using assms(4) by (simp add: Let_def)

lemma rsiStep64_loss:
  assumes "closes ! i = a" "closes ! (i - 1) = b" "jsSub a b = Num c" "c < 0"
  shows "rsiStep64 closes (g, l) i = (g, jsAdd l (Num \<bar>c\<bar>))"
  unfolding rsiStep64_def assms(1,2,3) using assms(4) by (simp add: Let_def)

lemma foldl_fixed: "\<forall>i\<in>set is. f s i = s \<Longrightarrow> foldl f s is = s"
  by (induction "is") simp_all

lemma hugeClose_pos: "0 \<le> hugeClose"
  by (simp add: hugeClose_def)

lemma round64_1: "round64 1 = Num 1"
  by (rule round64_eqI[where e = 0 and m = "2 ^ 52"]) (simp_all add: pow2_def)

lemma round64_huge: "round64 hugeClose = Num hugeClose"
  by (rule round64_eqI[where e = 60 and m = "2 ^ 52"]) (simp_all add: pow2_def hugeClose_def)

lemma sub_1_2: "jsSub (Num 1) (Num 2) = Num (- 1)"
  unfolding jsSub_def jsNeg.simps jsAdd.simps
  by (rule round64_eqI[where e = 0 and m = "- (2 ^ 52)"]) (simp_all add: pow2_def)

lemma sub_huge_1: "jsSub (Num hugeClose) (Num 1) = Num hugeClose"
  unfolding jsSub_def jsNeg.simps jsAdd.simps
  by (rule round64_eqI[where e = 59 and m = "2 ^ 53"]) (simp_all add: pow2_def hugeClose_def)

lemma sub_huge_huge: "jsSub (Num hugeClose) (Num hugeClose) = Num 0"
  by (simp add: jsSub_def round64_0)

lemma add_0_1: "jsAdd (Num 0) (Num \<bar>- 1\<bar>) = Num 1"
  by (simp add: round64_1)

lemma add_0_huge: "jsAdd (Num 0) (Num hugeClose) = Num hugeClose"
  by (simp add: round64_huge)

lemma add_huge_0: "jsAdd (Num hugeClose) (Num 0) = Num hugeClose"
  by (simp add: round64_huge)

lemma div_huge_14: "jsDiv (Num hugeClose) (Num 14) = Num (5146971002709138 * 16)"
proof -
  have "round64 (hugeClose / 14) = Num (5146971002709138 * 16)"
    by (rule round64_eqI[where e = 56 and m = 5146971002709138])
       (simp_all add: pow2_def hugeClose_def)
  then show ?thesis by simp
qed

lemma div_1_14: "jsDiv (Num 1) (Num 14) = Num (5146971002709138 / 2 ^ 56)"
proof -
  have "round64 (1 / 14) = Num (5146971002709138 / 2 ^ 56)"
    by (rule round64_eqI[where e = "- 4" and m = 5146971002709138]) (simp_all add: pow2_def)
  then show ?thesis by simp
qed

lemma div_avg: "jsDiv (Num (5146971002709138 * 16)) (Num (5146971002709138 / 2 ^ 56)) = Num hugeClose"
proof -
  have "(5146971002709138 * 16) / (5146971002709138 / 2 ^ 56) = hugeClose"
    by (simp add: hugeClose_def)
  then have "round64 ((5146971002709138 * 16) / (5146971002709138 / 2 ^ 56)) = Num hugeClose"
    by (simp only: round64_huge)
  then show ?thesis by simp
qed

lemma add_1_huge: "jsAdd (Num 1) (Num hugeClose) = Num hugeClose"
  unfolding jsAdd.simps
  by (rule round64_eqI[where e = 60 and m = "2 ^ 52"]) (simp_all add: pow2_def hugeClose_def)

lemma div_100_huge: "jsDiv (Num 100) (Num hugeClose) = Num (100 / hugeClose)"
proof -
  have "round64 (100 / hugeClose) = Num (100 / hugeClose)"
    by (rule round64_eqI[where e = "- 54" and m = "100 * 2 ^ 46"])
       (simp_all add: pow2_def hugeClose_def)
  moreover have "hugeClose \<noteq> 0" by (simp add: hugeClose_def)
  ultimately show ?thesis by simp
qed

lemma sub_100: "jsSub (Num 100) (Num (100 / hugeClose)) = Num 100"
  unfolding jsSub_def jsNeg.simps jsAdd.simps
  by (rule round64_eqI[where e = 6 and m = "100 * 2 ^ 46"]) (simp_all add: pow2_def hugeClose_def)

lemma absorbedLoss_nth:
  "absorbedLoss ! 0 = Num 2" "absorbedLoss ! 1 = Num 1"
  "2 \<le> i \<Longrightarrow> i < 15 \<Longrightarrow> absorbedLoss ! i = Num hugeClose"
  by (simp_all add: absorbedLoss_def nth_Cons')

lemma absorbedLoss_fold:
  "foldl (rsiStep64 absorbedLoss) (Num 0, Num 0) [length absorbedLoss - 14 ..< length absorbedLoss] =
     (Num hugeClose, Num 1)"
proof -
  have idx: "[length absorbedLoss - 14 ..< length absorbedLoss] = 1 # 2 # [3 ..< 15]"
    by (simp add: absorbedLoss_def upt_rec)
  have "rsiStep64 absorbedLoss (Num 0, Num 0) 1 = (Num 0, jsAdd (Num 0) (Num \<bar>- 1\<bar>))"
    by (rule rsiStep64_loss[where a = "Num 1" and b = "Num 2"])
       (simp_all add: absorbedLoss_def sub_1_2)
  then have s1: "rsiStep64 absorbedLoss (Num 0, Num 0) 1 = (Num 0, Num 1)"
    by (simp only: add_0_1)
  have "rsiStep64 absorbedLoss (Num 0, Num 1) 2 = (jsAdd (Num 0) (Num hugeClose), Num 1)"
    by (rule rsiStep64_gain[where a = "Num hugeClose" and b = "Num 1"])
       (simp_all add: absorbedLoss_def sub_huge_1 hugeClose_pos)
  then have s2: "rsiStep64 absorbedLoss (Num 0, Num 1) 2 = (Num hugeClose, Num 1)"
    by (simp only: add_0_huge)
  have s3: "\<forall>i\<in>set [3 ..< 15]. rsiStep64 absorbedLoss (Num hugeClose, Num 1) i = (Num hugeClose, Num 1)"
  proof
    fix i assume "i \<in> set [3 ..< 15]"
    then have "3 \<le> i \<and> i < 15" by (simp only: set_upt atLeastLessThan_iff)
    then have i: "2 \<le> i" "i < 15" "2 \<le> i - 1" "i - 1 < 15" by linarith+
    have "rsiStep64 absorbedLoss (Num hugeClose, Num 1) i = (jsAdd (Num hugeClose) (Num 0), Num 1)"
      by (rule rsiStep64_gain[OF absorbedLoss_nth(3)[OF i(1,2)] absorbedLoss_nth(3)[OF i(3,4)]
            sub_huge_huge]) simp
    then show "rsiStep64 absorbedLoss (Num hugeClose, Num 1) i = (Num hugeClose, Num 1)"
      by (simp only: add_huge_0)
  qed
  have rest: "foldl (rsiStep64 absorbedLoss) (Num hugeClose, Num 1) [3 ..< 15] = (Num hugeClose, Num 1)"
    using s3 by (rule foldl_fixed[where f = "rsiStep64 absorbedLoss" and s = "(Num hugeClose, Num 1)"])
  show ?thesis unfolding idx by (simp only: foldl_Cons s1 s2 rest)
qed

lemma absorbedLoss_rsi: "computeRsi14_binary64 absorbedLoss = Some (Num 100)"
proof -
  have len: "\<not> length absorbedLoss < 15" by (simp add: absorbedLoss_def)
  have ne: "\<not> jsEq (Num (5146971002709138 / 2 ^ 56)) (Num 0)" by (simp add: jsEq_def)
  show ?thesis
    unfolding computeRsi14_binary64_def Let_def absorbedLoss_fold fst_conv snd_conv
      div_huge_14 div_1_14 div_avg add_1_huge div_100_huge sub_100
    using len ne by (simp only: if_False)
qed

lemma round64_overflow: "pow2 1024 \<le> x \<Longrightarrow> round64 x = PosInf"
proof -
  assume a: "pow2 1024 \<le> x"
  have "0 < pow2 1024" by (rule pow2_pos)
  with a have "pow2 1024 \<le> \<bar>x\<bar>" by simp
  then have e: "exponent x = 1024" by (rule exponent_big)
  have "of_int 1 * pow2 1024 \<le> nearest x"
    by (rule nearest_lower) (use a e in simp_all)
  then show ?thesis by (simp add: round64_def Let_def)
qed

lemma round64_hugest: "round64 hugestClose = Num hugestClose"
  by (rule round64_eqI[where e = 1023 and m = "2 ^ 52"]) (simp_all add: pow2_def hugestClose_def)

lemma hugestClose_pos: "0 \<le> hugestClose" "- hugestClose < 0" "0 < hugestClose"
  by (simp_all add: hugestClose_def)

lemma sub_hugest_1: "jsSub (Num hugestClose) (Num 1) = Num hugestClose"
  unfolding jsSub_def jsNeg.simps jsAdd.simps
  by (rule round64_eqI[where e = 1022 and m = "2 ^ 53"]) (simp_all add: pow2_def hugestClose_def)

lemma sub_1_hugest: "jsSub (Num 1) (Num hugestClose) = Num (- hugestClose)"
  unfolding jsSub_def jsNeg.simps jsAdd.simps
  by (rule round64_eqI[where e = 1022 and m = "- (2 ^ 53)"])
     (simp_all add: pow2_def hugestClose_def)

lemma sub_1_1: "jsSub (Num 1) (Num 1) = Num 0"
  by (simp add: jsSub_def round64_0)

lemma add_0_hugest: "jsAdd (Num 0) (Num hugestClose) = Num hugestClose"
  by (simp add: round64_hugest)

lemma add_0_abs_hugest: "jsAdd (Num 0) (Num \<bar>- hugestClose\<bar>) = Num hugestClose"
  using hugestClose_pos(1) by (simp add: round64_hugest)

lemma add_hugest_hugest: "jsAdd (Num hugestClose) (Num hugestClose) = PosInf"
  unfolding jsAdd.simps by (rule round64_overflow) (simp add: pow2_def hugestClose_def)

lemma add_hugest_abs_hugest: "jsAdd (Num hugestClose) (Num \<bar>- hugestClose\<bar>) = PosInf"
  using hugestClose_pos(1) add_hugest_hugest by simp

lemma overflowing_nth:
  "overflowing ! 0 = Num 1" "overflowing ! 1 = Num hugestClose" "overflowing ! 2 = Num 1"
  "overflowing ! 3 = Num hugestClose"
  "4 \<le> i \<Longrightarrow> i < 15 \<Longrightarrow> overflowing ! i = Num 1"
  by (simp_all add: overflowing_def nth_Cons')

lemma overflowing_fold:
  "foldl (rsiStep64 overflowing) (Num 0, Num 0) [length overflowing - 14 ..< length overflowing] =
     (PosInf, PosInf)"
proof -
  have idx: "[length overflowing - 14 ..< length overflowing] = 1 # 2 # 3 # 4 # [5 ..< 15]"
    by (simp add: overflowing_def upt_rec)
  have "rsiStep64 overflowing (Num 0, Num 0) 1 = (jsAdd (Num 0) (Num hugestClose), Num 0)"
    by (rule rsiStep64_gain[where a = "Num hugestClose" and b = "Num 1"])
       (simp_all add: overflowing_def sub_hugest_1 hugestClose_pos)
  then have s1: "rsiStep64 overflowing (Num 0, Num 0) 1 = (Num hugestClose, Num 0)"
    by (simp only: add_0_hugest)
  have "rsiStep64 overflowing (Num hugestClose, Num 0) 2 =
      (Num hugestClose, jsAdd (Num 0) (Num \<bar>- hugestClose\<bar>))"
    by (rule rsiStep64_loss[where a = "Num 1" and b = "Num hugestClose"])
       (simp_all add: overflowing_def sub_1_hugest hugestClose_pos)
  then have s2: "rsiStep64 overflowing (Num hugestClose, Num 0) 2 = (Num hugestClose, Num hugestClose)"
    by (simp only: add_0_abs_hugest)
  have "rsiStep64 overflowing (Num hugestClose, Num hugestClose) 3 =
      (jsAdd (Num hugestClose) (Num hugestClose), Num hugestClose)"
    by (rule rsiStep64_gain[where a = "Num hugestClose" and b = "Num 1"])
       (simp_all add: overflowing_def sub_hugest_1 hugestClose_pos)
  then have s3: "rsiStep64 overflowing (Num hugestClose, Num hugestClose) 3 = (PosInf, Num hugestClose)"
    by (simp only: add_hugest_hugest)
  have "rsiStep64 overflowing (PosInf, Num hugestClose) 4 =
      (PosInf, jsAdd (Num hugestClose) (Num \<bar>- hugestClose\<bar>))"
    by (rule rsiStep64_loss[where a = "Num 1" and b = "Num hugestClose"])
       (simp_all add: overflowing_def sub_1_hugest hugestClose_pos)
  then have s4: "rsiStep64 overflowing (PosInf, Num hugestClose) 4 = (PosInf, PosInf)"
    by (simp only: add_hugest_abs_hugest)
  have s5: "\<forall>i\<in>set [5 ..< 15]. rsiStep64 overflowing (PosInf, PosInf) i = (PosInf, PosInf)"
  proof
    fix i assume "i \<in> set [5 ..< 15]"
    then have "5 \<le> i \<and> i < 15" by (simp only: set_upt atLeastLessThan_iff)
    then have i: "4 \<le> i" "i < 15" "4 \<le> i - 1" "i - 1 < 15" by linarith+
    have "rsiStep64 overflowing (PosInf, PosInf) i = (jsAdd PosInf (Num 0), PosInf)"
      by (rule rsiStep64_gain[OF overflowing_nth(5)[OF i(1,2)] overflowing_nth(5)[OF i(3,4)]
            sub_1_1]) simp
    then show "rsiStep64 overflowing (PosInf, PosInf) i = (PosInf, PosInf)" by simp
  qed
  have rest: "foldl (rsiStep64 overflowing) (PosInf, PosInf) [5 ..< 15] = (PosInf, PosInf)"
    using s5 by (rule foldl_fixed[where f = "rsiStep64 overflowing" and s = "(PosInf, PosInf)"])
  show ?thesis unfolding idx by (simp only: foldl_Cons s1 s2 s3 s4 rest)
qed

lemma overflowing_rsi: "computeRsi14_binary64 overflowing = Some NaN"
proof -
  have len: "\<not> length overflowing < 15" by (simp add: overflowing_def)
  show ?thesis
    unfolding computeRsi14_binary64_def Let_def overflowing_fold fst_conv snd_conv
    using len by (simp add: jsEq_def jsSub_def)
qed

text \<open>
  C7. The claim fails on the program's arithmetic. For the fifteen closes 2, 1 and then
  thirteen times \<open>2^60\<close> the first change of the window is \<open>-1\<close>, a negative change,
  and yet the result is exactly 100: the average loss \<open>1/14\<close> is not zero, but
  \<open>rs = 2^60\<close> and \<open>100 / (1 + rs)\<close> is less than half the distance from 100 to the
  next double below it, so that \<open>100 - 100 / (1 + rs)\<close> rounds to 100. For the closes 1,
  \<open>2^1023\<close>, 1, \<open>2^1023\<close> and then eleven times 1 both sums overflow to \<open>Infinity\<close>, and
  the result is \<open>Infinity / Infinity\<close> carried through, \<open>NaN\<close>, which is not in
  \<open>[0, 100]\<close>.
\<close>

theorem rsi_rounding_counterexample:
  "length absorbedLoss = 15 \<and>
   computeRsi14_binary64 absorbedLoss = Some (Num 100) \<and>
   jsSub (absorbedLoss ! 1) (absorbedLoss ! 0) = Num (- 1) \<and>
   \<not> jsGe (Num (- 1)) (Num 0) \<and>
   length overflowing = 15 \<and>
   computeRsi14_binary64 overflowing = Some NaN"
proof -
  have len: "length absorbedLoss = 15" "length overflowing = 15"
    by (simp_all add: absorbedLoss_def overflowing_def)
  have change: "jsSub (absorbedLoss ! 1) (absorbedLoss ! 0) = Num (- 1)"
    unfolding absorbedLoss_nth by (rule sub_1_2)
  have neg: "\<not> jsGe (Num (- 1)) (Num 0)" by simp
  from len change neg absorbedLoss_rsi overflowing_rsi show ?thesis by (intro conjI)
qed

text \<open>Bounds on both sides that lie on the grid carry over to the rounded value.\<close>

lemma round64_between:
  assumes "of_int K1 * pow2 j1 \<le> x" "x \<le> of_int K2 * pow2 j2"
    and "\<bar>x\<bar> \<le> pow2 k" "0 \<le> k" "k \<le> 1023" "k - 52 \<le> j1" "k - 52 \<le> j2"
  shows "\<exists>y. round64 x = Num y \<and> of_int K1 * pow2 j1 \<le> y \<and> y \<le> of_int K2 * pow2 j2"
proof -
  have "pow2 k < pow2 (k + 1)" by (simp add: pow2_less_iff)
  with assms(3) have "\<bar>x\<bar> < pow2 (k + 1)" by simp
  from exponent_upper[OF this assms(4)] have e: "exponent x \<le> k" .
  from round64_pow2_bound[OF assms(3,4,5)] obtain y where y: "round64 x = Num y" by blast
  then have n: "nearest x = y" by (auto simp: round64_def Let_def split: if_splits)
  have "of_int K1 * pow2 j1 \<le> nearest x" by (rule nearest_lower) (use assms(1,6) e in simp_all)
  moreover have "nearest x \<le> of_int K2 * pow2 j2"
    by (rule nearest_upper) (use assms(2,7) e in simp_all)
  ultimately show ?thesis using y n by simp
qed

text \<open>Whole numbers up to \<open>2^52\<close> are doubles, so their sums and differences are exact.\<close>

lemma round64_int:
  assumes "\<bar>n\<bar> \<le> 2 ^ 52"
  shows "round64 (of_int n) = Num (of_int n)"
proof -
  have "\<bar>real_of_int n\<bar> \<le> pow2 52"
  proof -
    have "real_of_int \<bar>n\<bar> \<le> real_of_int (2 ^ 52)" using assms by (simp only: of_int_le_iff)
    then show ?thesis by (simp add: pow2_def)
  qed
  from round64_between[of n 0 "of_int n" n 0 52, OF _ _ this]
  obtain y where "round64 (of_int n) = Num y" "of_int n \<le> y" "y \<le> of_int n"
    by (auto simp: pow2_0)
  then show ?thesis by simp
qed

text \<open>
  For closes that are whole numbers of magnitude at most \<open>2^30\<close> the loop computes the
  two sums exactly, as whole numbers, and the losses are zero exactly when no change
  was negative.
\<close>

lemma rsiStep64_whole:
  assumes "closes ! i = Num (of_int a)" "closes ! (i - 1) = Num (of_int b)"
    "\<bar>a\<bar> \<le> 2 ^ 30" "\<bar>b\<bar> \<le> 2 ^ 30"
    and "0 \<le> G" "G \<le> B" "0 \<le> L" "L \<le> B" "B + 2 ^ 31 \<le> 2 ^ 52"
  shows "\<exists>G' L'. rsiStep64 closes (Num (of_int G), Num (of_int L)) i = (Num (of_int G'), Num (of_int L')) \<and>
           0 \<le> G' \<and> G' \<le> B + 2 ^ 31 \<and> 0 \<le> L' \<and> L' \<le> B + 2 ^ 31 \<and>
           (L' = 0 \<longleftrightarrow> L = 0 \<and> jsGe (jsSub (closes ! i) (closes ! (i - 1))) (Num 0))"
proof -
  have ab: "\<bar>a - b\<bar> \<le> 2 ^ 31" using assms(3,4) by simp
  have "round64 (of_int (a - b)) = Num (of_int (a - b))"
    by (rule round64_int) (use ab in simp)
  then have ch: "jsSub (closes ! i) (closes ! (i - 1)) = Num (of_int (a - b))"
    unfolding assms(1,2) jsSub_def by simp
  have step: "rsiStep64 closes (Num (of_int G), Num (of_int L)) i =
      (if 0 \<le> a - b then (round64 (of_int G + of_int (a - b)), Num (of_int L))
       else (Num (of_int G), round64 (of_int L + \<bar>of_int (a - b)\<bar>)))"
    unfolding rsiStep64_def ch by (simp add: Let_def)
  show ?thesis
  proof (cases "0 \<le> a - b")
    case True
    have "round64 (of_int (G + (a - b))) = Num (of_int (G + (a - b)))"
      by (rule round64_int) (use True ab assms(5,6,9) in simp)
    then have "round64 (of_int G + of_int (a - b)) = Num (of_int (G + (a - b)))" by simp
    with True have "rsiStep64 closes (Num (of_int G), Num (of_int L)) i =
        (Num (of_int (G + (a - b))), Num (of_int L))"
      by (simp only: step if_True)
    moreover have "0 \<le> G + (a - b)" "G + (a - b) \<le> B + 2 ^ 31" using True ab assms(5,6) by simp_all
    moreover have "L \<le> B + 2 ^ 31" using assms(8) by simp
    moreover have "jsGe (jsSub (closes ! i) (closes ! (i - 1))) (Num 0)"
      unfolding ch using True by simp
    ultimately show ?thesis using assms(7) by blast
  next
    case False
    then have abs: "\<bar>real_of_int (a - b)\<bar> = of_int (b - a)" by simp
    have "round64 (of_int (L + (b - a))) = Num (of_int (L + (b - a)))"
      by (rule round64_int) (use False ab assms(7,8,9) in simp)
    then have "round64 (of_int L + \<bar>of_int (a - b)\<bar>) = Num (of_int (L + (b - a)))"
      unfolding abs by simp
    with False have "rsiStep64 closes (Num (of_int G), Num (of_int L)) i =
        (Num (of_int G), Num (of_int (L + (b - a))))"
      by (simp only: step if_False)
    moreover have "0 \<le> L + (b - a)" "L + (b - a) \<le> B + 2 ^ 31" "L + (b - a) \<noteq> 0"
      using False ab assms(7,8) by simp_all
    moreover have "G \<le> B + 2 ^ 31" using assms(6) by simp
    moreover have "\<not> jsGe (jsSub (closes ! i) (closes ! (i - 1))) (Num 0)"
      unfolding ch using False by simp
    ultimately show ?thesis using assms(5) by blast
  qed
qed

lemma rsi64_fold_whole:
  assumes "\<forall>i\<in>set is. \<exists>a b. closes ! i = Num (of_int a) \<and> closes ! (i - 1) = Num (of_int b) \<and>
              \<bar>a\<bar> \<le> 2 ^ 30 \<and> \<bar>b\<bar> \<le> 2 ^ 30"
    and "0 \<le> G" "G \<le> B" "0 \<le> L" "L \<le> B" "B + int (length is) * 2 ^ 31 \<le> 2 ^ 52"
  shows "\<exists>G' L'. foldl (rsiStep64 closes) (Num (of_int G), Num (of_int L)) is =
             (Num (of_int G'), Num (of_int L')) \<and>
           0 \<le> G' \<and> G' \<le> B + int (length is) * 2 ^ 31 \<and>
           0 \<le> L' \<and> L' \<le> B + int (length is) * 2 ^ 31 \<and>
           (L' = 0 \<longleftrightarrow> L = 0 \<and>
              (\<forall>i\<in>set is. jsGe (jsSub (closes ! i) (closes ! (i - 1))) (Num 0)))"
  using assms
proof (induction "is" arbitrary: G L B)
  case Nil
  then show ?case by simp
next
  case (Cons i "is")
  from Cons.prems(1) obtain a b where ab: "closes ! i = Num (of_int a)"
    "closes ! (i - 1) = Num (of_int b)" "\<bar>a\<bar> \<le> 2 ^ 30" "\<bar>b\<bar> \<le> 2 ^ 30" by auto
  have B1: "B + 2 ^ 31 \<le> 2 ^ 52" using Cons.prems(6) by simp
  from rsiStep64_whole[OF ab Cons.prems(2-5) B1] obtain G1 L1 where
    s: "rsiStep64 closes (Num (of_int G), Num (of_int L)) i = (Num (of_int G1), Num (of_int L1))"
    and b1: "0 \<le> G1" "G1 \<le> B + 2 ^ 31" "0 \<le> L1" "L1 \<le> B + 2 ^ 31"
    and z1: "L1 = 0 \<longleftrightarrow> L = 0 \<and> jsGe (jsSub (closes ! i) (closes ! (i - 1))) (Num 0)"
    by blast
  have rest: "\<forall>i\<in>set is. \<exists>a b. closes ! i = Num (of_int a) \<and> closes ! (i - 1) = Num (of_int b) \<and>
              \<bar>a\<bar> \<le> 2 ^ 30 \<and> \<bar>b\<bar> \<le> 2 ^ 30"
    using Cons.prems(1) by simp
  have B2: "B + 2 ^ 31 + int (length is) * 2 ^ 31 \<le> 2 ^ 52"
    using Cons.prems(6) by (simp add: algebra_simps)
  from Cons.IH[OF rest b1 B2] obtain G' L' where
    f: "foldl (rsiStep64 closes) (Num (of_int G1), Num (of_int L1)) is =
          (Num (of_int G'), Num (of_int L'))"
    and b2: "0 \<le> G'" "G' \<le> B + 2 ^ 31 + int (length is) * 2 ^ 31"
       "0 \<le> L'" "L' \<le> B + 2 ^ 31 + int (length is) * 2 ^ 31"
    and z2: "L' = 0 \<longleftrightarrow> L1 = 0 \<and>
        (\<forall>i\<in>set is. jsGe (jsSub (closes ! i) (closes ! (i - 1))) (Num 0))"
    by blast
  have len: "B + 2 ^ 31 + int (length is) * 2 ^ 31 = B + int (length (i # is)) * 2 ^ 31"
    by (simp add: algebra_simps)
  have "foldl (rsiStep64 closes) (Num (of_int G), Num (of_int L)) (i # is) =
      (Num (of_int G'), Num (of_int L'))"
    by (simp only: foldl_Cons s f)
  moreover have "L' = 0 \<longleftrightarrow> L = 0 \<and>
      (\<forall>j\<in>set (i # is). jsGe (jsSub (closes ! j) (closes ! (j - 1))) (Num 0))"
    using z1 z2 by auto
  ultimately show ?case using b2 unfolding len by blast
qed

text \<open>With a loss of at least one and gains of at most \<open>2^35\<close> the result is below 100.\<close>

lemma rsi64_tail_whole:
  assumes "0 \<le> G" "G \<le> 2 ^ 35" "1 \<le> L" "L \<le> 2 ^ 35"
  shows "\<not> jsEq (jsDiv (Num (of_int L)) (Num 14)) (Num 0) \<and>
     (\<exists>r. jsSub (Num 100) (jsDiv (Num 100) (jsAdd (Num 1)
             (jsDiv (jsDiv (Num (of_int G)) (Num 14)) (jsDiv (Num (of_int L)) (Num 14))))) = Num r \<and>
          0 \<le> r \<and> r < 100)"
proof -
  have G: "0 \<le> real_of_int G" "real_of_int G \<le> 2 ^ 35"
  proof -
    show "0 \<le> real_of_int G" using assms(1) by simp
    have "real_of_int G \<le> real_of_int (2 ^ 35)" using assms(2) by (simp only: of_int_le_iff)
    then show "real_of_int G \<le> 2 ^ 35" by simp
  qed
  have L: "1 \<le> real_of_int L" "real_of_int L \<le> 2 ^ 35"
  proof -
    show "1 \<le> real_of_int L" using assms(3) by simp
    have "real_of_int L \<le> real_of_int (2 ^ 35)" using assms(4) by (simp only: of_int_le_iff)
    then show "real_of_int L \<le> 2 ^ 35" by simp
  qed
  have "\<exists>y. round64 (of_int G / 14) = Num y \<and> of_int 0 * pow2 0 \<le> y \<and> y \<le> of_int 1 * pow2 32"
    by (rule round64_between[where k = 32]) (use G in \<open>simp_all add: pow2_def\<close>)
  then obtain ag where ag: "round64 (of_int G / 14) = Num ag" "0 \<le> ag" "ag \<le> 2 ^ 32"
    by (auto simp: pow2_def)
  have "\<exists>y. round64 (of_int L / 14) = Num y \<and> of_int 1 * pow2 (- 4) \<le> y \<and> y \<le> of_int 1 * pow2 32"
    by (rule round64_between[where k = 32]) (use L in \<open>simp_all add: pow2_def\<close>)
  then obtain al where al: "round64 (of_int L / 14) = Num al" "1 / 16 \<le> al" "al \<le> 2 ^ 32"
    by (auto simp: pow2_def)
  have al0: "al \<noteq> 0" "0 < al" using al(2) by simp_all
  have q: "0 \<le> ag / al" "ag / al \<le> 2 ^ 36"
  proof -
    show "0 \<le> ag / al" using ag(2) al0(2) by simp
    have "ag \<le> 2 ^ 32 * (16 * al)" using ag(3) al(2) ag(2)
      by (intro order_trans[OF ag(3)]) simp
    then show "ag / al \<le> 2 ^ 36" using al0(2) by (simp add: divide_le_eq)
  qed
  have "\<exists>y. round64 (ag / al) = Num y \<and> of_int 0 * pow2 0 \<le> y \<and> y \<le> of_int 1 * pow2 36"
    by (rule round64_between[where k = 36]) (use q in \<open>simp_all add: pow2_def\<close>)
  then obtain rs where rs: "round64 (ag / al) = Num rs" "0 \<le> rs" "rs \<le> 2 ^ 36"
    by (auto simp: pow2_def)
  have "\<exists>y. round64 (1 + rs) = Num y \<and> of_int 1 * pow2 0 \<le> y \<and> y \<le> of_int 1 * pow2 37"
    by (rule round64_between[where k = 37]) (use rs in \<open>simp_all add: pow2_def\<close>)
  then obtain t where t: "round64 (1 + rs) = Num t" "1 \<le> t" "t \<le> 2 ^ 37"
    by (auto simp: pow2_def)
  have t0: "t \<noteq> 0" "0 < t" using t(2) by simp_all
  have d0: "25 / 2 ^ 35 \<le> 100 / t" "100 / t \<le> 100"
  proof -
    have "25 * t \<le> 100 * 2 ^ 35" using t(3) by simp
    then show "25 / 2 ^ 35 \<le> 100 / t" using t0(2) by (simp add: field_simps)
    show "100 / t \<le> 100" using t(2) by (simp add: divide_le_eq)
  qed
  have "\<exists>y. round64 (100 / t) = Num y \<and> of_int 25 * pow2 (- 35) \<le> y \<and> y \<le> of_int 100 * pow2 0"
    by (rule round64_between[where k = 7]) (use d0 t0 in \<open>simp_all add: pow2_def\<close>)
  then obtain d where d: "round64 (100 / t) = Num d" "25 / 2 ^ 35 \<le> d" "d \<le> 100"
    by (auto simp: pow2_def)
  have "\<exists>y. round64 (100 - d) = Num y \<and> of_int 0 * pow2 0 \<le> y \<and>
          y \<le> of_int (100 * 2 ^ 35 - 25) * pow2 (- 35)"
    by (rule round64_between[where k = 7]) (use d in \<open>simp_all add: pow2_def field_simps\<close>)
  then obtain r where r: "round64 (100 - d) = Num r" "0 \<le> r" "r \<le> (100 * 2 ^ 35 - 25) / 2 ^ 35"
    by (auto simp: pow2_def)
  have "r < 100" using r(3) by simp
  with r(1,2) have "jsSub (Num 100) (jsDiv (Num 100) (jsAdd (Num 1)
             (jsDiv (jsDiv (Num (of_int G)) (Num 14)) (jsDiv (Num (of_int L)) (Num 14))))) = Num r \<and>
          0 \<le> r \<and> r < 100"
    by (simp add: ag(1) al(1) al0 rs(1) t(1) t0 d(1) jsSub_def)
  moreover have "\<not> jsEq (jsDiv (Num (of_int L)) (Num 14)) (Num 0)"
    by (simp add: al(1) al0 jsEq_def)
  ultimately show ?thesis by blast
qed

lemma rsi64_whole:
  assumes "15 \<le> length closes"
    and "\<forall>i. length closes - 15 \<le> i \<and> i < length closes \<longrightarrow>
           (\<exists>n. closes ! i = Num (of_int n) \<and> \<bar>n\<bar> \<le> 2 ^ 30)"
  shows "\<exists>x. computeRsi14_binary64 closes = Some (Num x) \<and> 0 \<le> x \<and> x \<le> 100 \<and>
     (x = 100 \<longleftrightarrow>
       (\<forall>i. length closes - 14 \<le> i \<and> i < length closes \<longrightarrow>
            jsGe (jsSub (closes ! i) (closes ! (i - 1))) (Num 0)))"
proof -
  let ?is = "[length closes - 14 ..< length closes]"
  define gl where "gl = foldl (rsiStep64 closes) (Num 0, Num 0) ?is"
  define r where "r = (if jsEq (jsDiv (snd gl) (Num 14)) (Num 0) then Num 100
      else jsSub (Num 100) (jsDiv (Num 100) (jsAdd (Num 1)
             (jsDiv (jsDiv (fst gl) (Num 14)) (jsDiv (snd gl) (Num 14))))))"
  have c: "computeRsi14_binary64 closes = Some r"
    using assms(1) by (simp add: computeRsi14_binary64_def gl_def[symmetric] Let_def r_def)
  have inputs: "\<forall>i\<in>set ?is. \<exists>a b. closes ! i = Num (of_int a) \<and> closes ! (i - 1) = Num (of_int b) \<and>
      \<bar>a\<bar> \<le> 2 ^ 30 \<and> \<bar>b\<bar> \<le> 2 ^ 30"
  proof
    fix i assume "i \<in> set ?is"
    then have i: "length closes - 14 \<le> i" "i < length closes" by simp_all
    with assms(1) have "length closes - 15 \<le> i" "length closes - 15 \<le> i - 1" "i - 1 < length closes"
      by simp_all
    with assms(2) i(2) obtain a b where "closes ! i = Num (of_int a)" "\<bar>a\<bar> \<le> 2 ^ 30"
      "closes ! (i - 1) = Num (of_int b)" "\<bar>b\<bar> \<le> 2 ^ 30" by meson
    then show "\<exists>a b. closes ! i = Num (of_int a) \<and> closes ! (i - 1) = Num (of_int b) \<and>
        \<bar>a\<bar> \<le> 2 ^ 30 \<and> \<bar>b\<bar> \<le> 2 ^ 30" by blast
  qed
  have len: "int (length ?is) = 14" using assms(1) by simp
  have all: "(\<forall>i\<in>set ?is. jsGe (jsSub (closes ! i) (closes ! (i - 1))) (Num 0)) \<longleftrightarrow>
      (\<forall>i. length closes - 14 \<le> i \<and> i < length closes \<longrightarrow>
            jsGe (jsSub (closes ! i) (closes ! (i - 1))) (Num 0))"
    by auto
  have room: "0 + int (length ?is) * 2 ^ 31 \<le> 2 ^ 52" unfolding len by simp
  from rsi64_fold_whole[OF inputs order_refl[of 0] order_refl[of 0] order_refl[of 0]
      order_refl[of 0] room]
  obtain G L where
    f: "foldl (rsiStep64 closes) (Num (of_int 0), Num (of_int 0)) ?is =
          (Num (of_int G), Num (of_int L))"
    and b0: "0 \<le> G" "G \<le> 0 + int (length ?is) * 2 ^ 31"
       "0 \<le> L" "L \<le> 0 + int (length ?is) * 2 ^ 31"
    and z0: "L = 0 \<longleftrightarrow> (0::int) = 0 \<and>
        (\<forall>i\<in>set ?is. jsGe (jsSub (closes ! i) (closes ! (i - 1))) (Num 0))"
    by blast
  have gl: "gl = (Num (of_int G), Num (of_int L))" using f by (simp add: gl_def)
  have b: "0 \<le> G" "G \<le> 14 * 2 ^ 31" "0 \<le> L" "L \<le> 14 * 2 ^ 31"
    using b0 unfolding len by simp_all
  have z: "L = 0 \<longleftrightarrow> (\<forall>i\<in>set ?is. jsGe (jsSub (closes ! i) (closes ! (i - 1))) (Num 0))"
    using z0 by blast
  have z': "L = 0 \<longleftrightarrow> (\<forall>i. length closes - 14 \<le> i \<and> i < length closes \<longrightarrow>
            jsGe (jsSub (closes ! i) (closes ! (i - 1))) (Num 0))"
    using z all by (rule trans)
  show ?thesis
  proof (cases "L = 0")
    case True
    then have "r = Num 100" by (simp add: r_def gl round64_0 jsEq_def)
    with c True z' show ?thesis by auto
  next
    case False
    with b(3) have L1: "1 \<le> L" by simp
    have "G \<le> 2 ^ 35" "L \<le> 2 ^ 35" using b(2,4) by simp_all
    from rsi64_tail_whole[OF b(1) this(1) L1 this(2)] obtain x where
      "\<not> jsEq (jsDiv (Num (of_int L)) (Num 14)) (Num 0)"
      "jsSub (Num 100) (jsDiv (Num 100) (jsAdd (Num 1)
             (jsDiv (jsDiv (Num (of_int G)) (Num 14)) (jsDiv (Num (of_int L)) (Num 14))))) = Num x"
      "0 \<le> x" "x < 100" by blast
    then have "r = Num x" unfolding r_def gl fst_conv snd_conv by (simp only: if_False)
    with c \<open>0 \<le> x\<close> \<open>x < 100\<close> False z' show ?thesis by auto
  qed
qed

text \<open>
  C7, amended. For every list of at least 15 numbers, \<open>computeRsi14\<close> is defined and its
  value is \<open>NaN\<close> or lies in \<open>[0, 100]\<close>; it is exactly 100 whenever each of the last 14
  changes \<open>closes[i] - closes[i - 1]\<close>, as the program computes them, is non-negative;
  it is not \<open>NaN\<close>, hence in \<open>[0, 100]\<close>, when the last 15 closes are finite and of
  magnitude at most \<open>2^1000\<close>; and when the last 15 closes are whole numbers of
  magnitude at most \<open>2^30\<close>, as prices in won are, the claim holds in full: the value
  lies in \<open>[0, 100]\<close> and is exactly 100 if and only if each of the last 14 changes is
  non-negative.
\<close>

theorem computeRsi14_binary64_range:
  assumes "15 \<le> length closes"
  shows "\<exists>r. computeRsi14_binary64 closes = Some r \<and>
     (r = NaN \<or> (\<exists>x. r = Num x \<and> 0 \<le> x \<and> x \<le> 100)) \<and>
     ((\<forall>i. length closes - 14 \<le> i \<and> i < length closes \<longrightarrow>
           jsGe (jsSub (closes ! i) (closes ! (i - 1))) (Num 0)) \<longrightarrow> r = Num 100) \<and>
     ((\<forall>i. length closes - 15 \<le> i \<and> i < length closes \<longrightarrow>
           (\<exists>x. closes ! i = Num x \<and> \<bar>x\<bar> \<le> 2 ^ 1000)) \<longrightarrow> r \<noteq> NaN) \<and>
     ((\<forall>i. length closes - 15 \<le> i \<and> i < length closes \<longrightarrow>
           (\<exists>n. closes ! i = Num (of_int n) \<and> \<bar>n\<bar> \<le> 2 ^ 30)) \<longrightarrow>
        (\<exists>x. r = Num x \<and> 0 \<le> x \<and> x \<le> 100 \<and>
           (x = 100 \<longleftrightarrow>
              (\<forall>i. length closes - 14 \<le> i \<and> i < length closes \<longrightarrow>
                   jsGe (jsSub (closes ! i) (closes ! (i - 1))) (Num 0)))))"
proof -
  from rsi64_range[OF assms] obtain r where
    r: "computeRsi14_binary64 closes = Some r"
       "r = NaN \<or> (\<exists>x. r = Num x \<and> 0 \<le> x \<and> x \<le> 100)"
       "(\<forall>i. length closes - 14 \<le> i \<and> i < length closes \<longrightarrow>
           jsGe (jsSub (closes ! i) (closes ! (i - 1))) (Num 0)) \<longrightarrow> r = Num 100"
    by blast
  have finite: "r \<noteq> NaN"
    if "\<forall>i. length closes - 15 \<le> i \<and> i < length closes \<longrightarrow>
           (\<exists>x. closes ! i = Num x \<and> \<bar>x\<bar> \<le> 2 ^ 1000)"
    using rsi64_finite[OF assms that] r(1) by auto
  have whole: "\<exists>x. r = Num x \<and> 0 \<le> x \<and> x \<le> 100 \<and>
           (x = 100 \<longleftrightarrow>
              (\<forall>i. length closes - 14 \<le> i \<and> i < length closes \<longrightarrow>
                   jsGe (jsSub (closes ! i) (closes ! (i - 1))) (Num 0)))"
    if "\<forall>i. length closes - 15 \<le> i \<and> i < length closes \<longrightarrow>
           (\<exists>n. closes ! i = Num (of_int n) \<and> \<bar>n\<bar> \<le> 2 ^ 30)"
    using rsi64_whole[OF assms that] r(1) by auto
  from r finite whole show ?thesis by blast
qed

theorem computeRsi14_binary64_range_witness:
  "15 \<le> length risingCloses \<and> computeRsi14_binary64 risingCloses = Some (Num 100) \<and>
   15 \<le> length dippingCloses \<and>
   (\<exists>x. computeRsi14_binary64 dippingCloses = Some (Num x) \<and> 0 \<le> x \<and> x < 100)"
proof -
  have len: "length risingCloses = 15" by (simp add: risingCloses_def)
  have nth: "risingCloses ! i = Num (real i + 1)" if "i < 15" for i
    using that by (simp add: risingCloses_def)
  have gains: "\<forall>i. length risingCloses - 14 \<le> i \<and> i < length risingCloses \<longrightarrow>
           jsGe (jsSub (risingCloses ! i) (risingCloses ! (i - 1))) (Num 0)"
  proof (intro allI impI)
    fix i assume "length risingCloses - 14 \<le> i \<and> i < length risingCloses"
    then have "1 \<le> i \<and> i < 15" by (simp add: len)
    then have i: "1 \<le> i" "i < 15" "i - 1 < 15" by linarith+
    have "real i + 1 + - (real (i - 1) + 1) = 1" using i(1) by (simp add: of_nat_diff)
    then have "jsSub (risingCloses ! i) (risingCloses ! (i - 1)) = Num 1"
      unfolding nth[OF i(2)] nth[OF i(3)] jsSub_def jsNeg.simps jsAdd.simps
      by (simp only: round64_1)
    then show "jsGe (jsSub (risingCloses ! i) (risingCloses ! (i - 1))) (Num 0)" by simp
  qed
  have small: "\<forall>i. length risingCloses - 15 \<le> i \<and> i < length risingCloses \<longrightarrow>
           (\<exists>x. risingCloses ! i = Num x \<and> \<bar>x\<bar> \<le> 2 ^ 1000)"
  proof (intro allI impI)
    fix i assume "length risingCloses - 15 \<le> i \<and> i < length risingCloses"
    then have i: "i < 15" by (simp add: len)
    have "real i + 1 \<le> 2 ^ 4" using i by simp
    also have "(2::real) ^ 4 \<le> 2 ^ 1000" by (rule power_increasing) simp_all
    finally show "\<exists>x. risingCloses ! i = Num x \<and> \<bar>x\<bar> \<le> 2 ^ 1000"
      by (simp add: nth[OF i])
  qed
  from computeRsi14_binary64_range[of risingCloses] gains small len
  have rising: "computeRsi14_binary64 risingCloses = Some (Num 100)" by auto
  have dlen: "length dippingCloses = 15" by (simp add: dippingCloses_def)
  have whole: "\<forall>i. length dippingCloses - 15 \<le> i \<and> i < length dippingCloses \<longrightarrow>
           (\<exists>n. dippingCloses ! i = Num (of_int n) \<and> \<bar>n\<bar> \<le> 2 ^ 30)"
  proof (intro allI impI)
    fix i assume "length dippingCloses - 15 \<le> i \<and> i < length dippingCloses"
    then have i: "i < 15" by (simp add: dlen)
    consider "i = 0" | "i = 1" | "2 \<le> i" by linarith
    then show "\<exists>n. dippingCloses ! i = Num (of_int n) \<and> \<bar>n\<bar> \<le> 2 ^ 30"
    proof cases
      case 1
      then show ?thesis by (intro exI[of _ 2]) (simp add: dippingCloses_def)
    next
      case 2
      then show ?thesis by (intro exI[of _ 1]) (simp add: dippingCloses_def)
    next
      case 3
      with i show ?thesis by (intro exI[of _ 3]) (simp add: dippingCloses_def nth_Cons')
    qed
  qed
  have d01: "dippingCloses ! 1 = Num 1" "dippingCloses ! (1 - 1) = Num 2"
    by (simp_all add: dippingCloses_def)
  have loss: "\<not> (\<forall>i. length dippingCloses - 14 \<le> i \<and> i < length dippingCloses \<longrightarrow>
           jsGe (jsSub (dippingCloses ! i) (dippingCloses ! (i - 1))) (Num 0))"
  proof
    assume "\<forall>i. length dippingCloses - 14 \<le> i \<and> i < length dippingCloses \<longrightarrow>
           jsGe (jsSub (dippingCloses ! i) (dippingCloses ! (i - 1))) (Num 0)"
    moreover have "length dippingCloses - 14 \<le> 1 \<and> 1 < length dippingCloses"
      by (simp add: dlen)
    ultimately have "jsGe (jsSub (dippingCloses ! 1) (dippingCloses ! (1 - 1))) (Num 0)"
      by blast
    then show False unfolding d01 sub_1_2 by simp
  qed
  from computeRsi14_binary64_range[of dippingCloses] whole loss dlen
  obtain x where "computeRsi14_binary64 dippingCloses = Some (Num x)" "0 \<le> x" "x \<le> 100" "x \<noteq> 100"
    by auto
  then have "\<exists>x. computeRsi14_binary64 dippingCloses = Some (Num x) \<and> 0 \<le> x \<and> x < 100"
    by (intro exI[of _ x]) simp
  with rising len dlen show ?thesis by simp
qed

subsection \<open>Candidate verifier\<close>

text \<open>
  The fallback of \<open>applyVerification\<close> for a domestic candidate whose ticker is not in the
  domestic set: the name is normalized and looked up; a resolved, non-empty ticker replaces
  the candidate's, otherwise the candidate stays unverified.
\<close>

lemma applyVerification_domestic_fallback:
  assumes "i < length cs" and "market (cs ! i) = js ''KR''"
    and "toUpperCase U (Candidate.ticker (cs ! i)) \<notin> krSet U R"
  shows "applyVerification U R cs ! i =
     (case resolveKrTickerByName U R (name (cs ! i)) of
        Some t \<Rightarrow>
          if t \<noteq> [] then
            (cs ! i)\<lparr>Candidate.ticker := t, market := js ''KR'', verified := Some True\<rparr>
          else (cs ! i)\<lparr>verified := Some False\<rparr>
      | None \<Rightarrow> (cs ! i)\<lparr>verified := Some False\<rparr>)"
  using assms by (simp add: applyVerification_def validateCandidateTicker_def Let_def)

text \<open>
  The example of the specification: \<open>000000\<close> is not a domestic ticker, and the name
  \<open>Samsung Electronics\<close> normalizes to the key \<open>SAMSUNGELECTRONICS\<close> of the name map.
\<close>

lemma applyVerification_samsung:
  "applyVerification caseless
     \<lparr>krUniverse = [js ''005930''], usUniverse = [],
      krNameMap = [js ''SAMSUNGELECTRONICS'' \<mapsto> js ''005930'']\<rparr>
     [\<lparr>Candidate.ticker = js ''000000'', name = js ''Samsung Electronics'',
       market = js ''KR'', rationale = js ''r'', score = 50, confidence = 1 / 2,
       verified = Some False, stageTag = None, stageReason = None, scoreBreakdown = None\<rparr>]
   = [\<lparr>Candidate.ticker = js ''005930'', name = js ''Samsung Electronics'',
       market = js ''KR'', rationale = js ''r'', score = 50, confidence = 1 / 2,
       verified = Some True, stageTag = None, stageReason = None, scoreBreakdown = None\<rparr>]"
  by (simp add: applyVerification_def validateCandidateTicker_def resolveKrTickerByName_def
      normalizeName_filter nameStripClass_def krSet_def Let_def js_eval)

text \<open>
  C5. The claim has the middle dot U+00B7 among the characters that \<open>normalizeName\<close>
  strips. The character class of the file holds U+CA0C in its place, so a middle dot stays
  in the key: the name \<open>LG\<cdot>Chem\<close> (with a middle dot) normalizes to \<open>LG\<cdot>CHEM\<close>, not to
  \<open>LGCHEM\<close>, and with \<open>LGCHEM\<close> in the name map the candidate is left with its ticker
  \<open>000000\<close> and \<open>verified = false\<close>.
\<close>

theorem normalizeName_keeps_middle_dot:
  "normalizeName caseless (js ''LG'' @ [183] @ js ''Chem'') = js ''LG'' @ [183] @ js ''CHEM'' \<and>
   applyVerification caseless
     \<lparr>krUniverse = [js ''051910''], usUniverse = [],
      krNameMap = [js ''LGCHEM'' \<mapsto> js ''051910'']\<rparr>
     [\<lparr>Candidate.ticker = js ''000000'', name = js ''LG'' @ [183] @ js ''Chem'',
       market = js ''KR'', rationale = js ''r'', score = 50, confidence = 1 / 2,
       verified = Some False, stageTag = None, stageReason = None, scoreBreakdown = None\<rparr>]
   = [\<lparr>Candidate.ticker = js ''000000'', name = js ''LG'' @ [183] @ js ''Chem'',
       market = js ''KR'', rationale = js ''r'', score = 50, confidence = 1 / 2,
       verified = Some False, stageTag = None, stageReason = None, scoreBreakdown = None\<rparr>]"
  by (simp add: applyVerification_def validateCandidateTicker_def resolveKrTickerByName_def
      normalizeName_filter nameStripClass_def krSet_def Let_def js_eval)

text \<open>
  C10. \<open>applyVerification\<close> returns a list of the same length in which the candidate at
  every position has the name, rationale, score, confidence, stage tag and stage reason of
  the input candidate at that position: only ticker, market and verified may differ.
\<close>

theorem applyVerification_frame:
  "length (applyVerification U R cs) = length cs \<and>
   map name (applyVerification U R cs) = map name cs \<and>
   map rationale (applyVerification U R cs) = map rationale cs \<and>
   map score (applyVerification U R cs) = map score cs \<and>
   map confidence (applyVerification U R cs) = map confidence cs \<and>
   map stageTag (applyVerification U R cs) = map stageTag cs \<and>
   map stageReason (applyVerification U R cs) = map stageReason cs"
  by (simp add: applyVerification_def Let_def split: option.split)

subsection \<open>Composite score\<close>



























subsection \<open>Scheduler\<close>

lemma arraySet_length: "length (arraySet xs i v) = max (length xs) (Suc i)"
  by (simp add: arraySet_def)

lemma arraySet_nth:
  "j < length (arraySet xs i v) \<Longrightarrow>
   arraySet xs i v ! j = (if j = i then Some v else if j < length xs then xs ! j else None)"
  by (auto simp: arraySet_def nth_append nth_Cons' )

lemma remove_nth_set:
  "set (take j xs @ drop (Suc j) xs) \<subseteq> set xs"
  by (auto dest: in_set_takeD in_set_dropD)

lemma remove_nth_distinct:
  assumes "distinct xs" "j < length xs"
  shows "distinct (take j xs @ drop (Suc j) xs)"
    and "xs ! j \<notin> set (take j xs @ drop (Suc j) xs)"
    and "set xs = insert (xs ! j) (set (take j xs @ drop (Suc j) xs))"
proof -
  from assms(2) have xs: "xs = take j xs @ xs ! j # drop (Suc j) xs"
    by (rule id_take_nth_drop)
  with assms(1) have d: "distinct (take j xs @ xs ! j # drop (Suc j) xs)" by simp
  from d show "distinct (take j xs @ drop (Suc j) xs)" by simp
  from d show "xs ! j \<notin> set (take j xs @ drop (Suc j) xs)" by simp
  have "set xs = set (take j xs @ xs ! j # drop (Suc j) xs)" using xs by simp
  then show "set xs = insert (xs ! j) (set (take j xs @ drop (Suc j) xs))" by simp
qed

lemma workerLoop_ok: "poolOk tasks p \<Longrightarrow> poolOk tasks (workerLoop (length tasks) p)"
  by (auto simp: poolOk_def workerLoop_def)

lemma workerLoop_pow_ok: "poolOk tasks p \<Longrightarrow> poolOk tasks ((workerLoop (length tasks) ^^ k) p)"
  by (induction k) (simp_all add: workerLoop_ok)

lemma settle_ok:
  assumes "poolOk tasks p" "j < length (awaiting p)"
  shows "poolOk tasks (settle tasks j p)"
proof -
  let ?c = "awaiting p ! j"
  let ?p' = "p\<lparr>awaiting := take j (awaiting p) @ drop (Suc j) (awaiting p)\<rparr>"
  have c: "?c < index p" using assms by (simp add: poolOk_def)
  have ok': "poolOk tasks ?p'"
    using assms(1) remove_nth_set[of j "awaiting p"] by (auto simp: poolOk_def)
  show ?thesis
  proof (cases "tasks ! ?c")
    case (Inl e)
    then show ?thesis using ok' by (simp add: settle_def Let_def)
  next
    case (Inr v)
    have "poolOk tasks (?p'\<lparr>results := arraySet (results ?p') ?c v\<rparr>)"
      using ok' c Inr by (auto simp: poolOk_def arraySet_length arraySet_nth)
    then show ?thesis using Inr by (simp add: settle_def Let_def workerLoop_ok)
  qed
qed

lemma drain_ok:
  "poolOk tasks p \<Longrightarrow>
   length (drain tasks sched p) \<le> length tasks \<and>
   (\<forall>i<length (drain tasks sched p). \<forall>v. drain tasks sched p ! i = Some v \<longrightarrow> tasks ! i = Inr v)"
proof (induction tasks sched p rule: drain.induct)
  case (1 tasks sched p)
  show ?case
  proof (cases "awaiting p = []")
    case True
    with "1.prems" show ?thesis by (simp add: poolOk_def)
  next
    case False
    then have "choice sched (length (awaiting p)) < length (awaiting p)"
      by (simp add: choice_less)
    with "1.prems" have "poolOk tasks (settle tasks (choice sched (length (awaiting p))) p)"
      by (rule settle_ok)
    from "1.IH"[OF False this] False show ?thesis by simp
  qed
qed

lemma init_ok: "poolOk tasks \<lparr>index = 0, results = [], awaiting = []\<rparr>"
  by (simp add: poolOk_def)

lemma runWithConcurrency_ok:
  "length (runWithConcurrency tasks limit sched) \<le> length tasks \<and>
   (\<forall>i<length (runWithConcurrency tasks limit sched). \<forall>v.
       runWithConcurrency tasks limit sched ! i = Some v \<longrightarrow> tasks ! i = Inr v)"
  unfolding runWithConcurrency_def
  by (rule drain_ok) (rule workerLoop_pow_ok, rule init_ok)


lemma workerLoop_full:
  assumes "poolOk tasks p" "distinct (awaiting p)"
    and "\<forall>i<index p. i \<in> set (awaiting p) \<or> (i < length (results p) \<and> results p ! i \<noteq> None)"
  shows "poolFull tasks (workerLoop (length tasks) p)"
proof (cases "index p < length tasks")
  case True
  have "index p \<notin> set (awaiting p)" using assms(1) by (auto simp: poolOk_def)
  with True assms(2,3) show ?thesis
    by (auto simp: poolFull_def workerLoop_def less_Suc_eq)
next
  case False
  with assms(2,3) show ?thesis by (simp add: poolFull_def workerLoop_def)
qed

lemma poolFull_fill:
  "poolFull tasks p \<Longrightarrow>
   distinct (awaiting p) \<and>
   (\<forall>i<index p. i \<in> set (awaiting p) \<or> (i < length (results p) \<and> results p ! i \<noteq> None))"
  by (simp add: poolFull_def)

lemma workerLoop_pow_fill:
  "poolOk tasks p \<Longrightarrow> distinct (awaiting p) \<Longrightarrow>
   \<forall>i<index p. i \<in> set (awaiting p) \<or> (i < length (results p) \<and> results p ! i \<noteq> None) \<Longrightarrow>
   distinct (awaiting ((workerLoop (length tasks) ^^ m) p)) \<and>
   (\<forall>i<index ((workerLoop (length tasks) ^^ m) p).
      i \<in> set (awaiting ((workerLoop (length tasks) ^^ m) p)) \<or>
      (i < length (results ((workerLoop (length tasks) ^^ m) p)) \<and>
       results ((workerLoop (length tasks) ^^ m) p) ! i \<noteq> None))"
proof (induction m)
  case 0
  then show ?case by simp
next
  case (Suc m)
  let ?q = "(workerLoop (length tasks) ^^ m) p"
  have ok: "poolOk tasks ?q" using Suc.prems(1) by (rule workerLoop_pow_ok)
  note ih = Suc.IH[OF Suc.prems]
  have "poolFull tasks (workerLoop (length tasks) ?q)"
    using ok ih[THEN conjunct1] ih[THEN conjunct2] by (rule workerLoop_full)
  from poolFull_fill[OF this] show ?case by simp
qed

lemma workerLoop_pow_full:
  fixes tasks :: "('e + 'a) list"
  assumes "0 < limit"
  shows "poolFull tasks
     ((workerLoop (length tasks) ^^ min limit (length tasks))
        \<lparr>index = 0, results = ([] :: 'a jsarray), awaiting = []\<rparr>)"
proof (cases "min limit (length tasks)")
  case 0
  with assms have "length tasks = 0" by (simp add: min_def split: if_splits)
  with 0 show ?thesis by (simp add: poolFull_def)
next
  case (Suc k)
  let ?p = "(workerLoop (length tasks) ^^ k) \<lparr>index = 0, results = ([] :: 'a jsarray), awaiting = []\<rparr>"
  have ok: "poolOk tasks ?p" by (rule workerLoop_pow_ok) (rule init_ok)
  have fill: "distinct (awaiting ?p) \<and>
      (\<forall>i<index ?p. i \<in> set (awaiting ?p) \<or> (i < length (results ?p) \<and> results ?p ! i \<noteq> None))"
    by (rule workerLoop_pow_fill) (simp_all add: init_ok)
  have "poolFull tasks (workerLoop (length tasks) ?p)"
    using ok fill[THEN conjunct1] fill[THEN conjunct2] by (rule workerLoop_full)
  with Suc show ?thesis by simp
qed

lemma settle_full:
  assumes inr: "\<forall>t\<in>set tasks. \<exists>v. t = Inr v"
    and ok: "poolOk tasks p" and full: "poolFull tasks p" and j: "j < length (awaiting p)"
  shows "poolFull tasks (settle tasks j p)"
proof -
  let ?c = "awaiting p ! j"
  let ?rest = "take j (awaiting p) @ drop (Suc j) (awaiting p)"
  have c: "?c < index p" using ok j by (simp add: poolOk_def)
  then have "?c < length tasks" using ok by (simp add: poolOk_def)
  then have "tasks ! ?c \<in> set tasks" by simp
  with inr obtain v where v: "tasks ! ?c = Inr v" by blast
  let ?p'' = "p\<lparr>awaiting := ?rest, results := arraySet (results p) ?c v\<rparr>"
  have d: "distinct (awaiting p)" using full by (simp add: poolFull_def)
  note rm = remove_nth_distinct[OF d j]
  have ok'': "poolOk tasks ?p''"
    using ok c v remove_nth_set[of j "awaiting p"]
    by (auto simp: poolOk_def arraySet_length arraySet_nth)
  have fill: "\<forall>i<index ?p''. i \<in> set (awaiting ?p'') \<or>
      (i < length (results ?p'') \<and> results ?p'' ! i \<noteq> None)"
  proof (intro allI impI)
    fix i assume "i < index ?p''"
    then have i: "i < index p" by simp
    show "i \<in> set (awaiting ?p'') \<or> (i < length (results ?p'') \<and> results ?p'' ! i \<noteq> None)"
    proof (cases "i = ?c")
      case True
      have "?c < length (arraySet (results p) ?c v)" by (simp add: arraySet_length)
      with True show ?thesis by (simp add: arraySet_nth)
    next
      case False
      from full i have "i \<in> set (awaiting p) \<or> (i < length (results p) \<and> results p ! i \<noteq> None)"
        by (simp add: poolFull_def)
      then show ?thesis
      proof
        assume "i \<in> set (awaiting p)"
        with rm(3) False have "i \<in> set ?rest" by auto
        then show ?thesis by simp
      next
        assume a: "i < length (results p) \<and> results p ! i \<noteq> None"
        then have l: "i < length (arraySet (results p) ?c v)"
          by (simp add: arraySet_length less_max_iff_disj)
        from a False have "arraySet (results p) ?c v ! i \<noteq> None"
          by (simp add: arraySet_nth[OF l])
        with l show ?thesis by simp
      qed
    qed
  qed
  have "poolFull tasks (workerLoop (length tasks) ?p'')"
    using ok'' rm(1) fill by (intro workerLoop_full) simp_all
  then show ?thesis using v by (simp add: settle_def Let_def)
qed

lemma drain_full:
  assumes "\<forall>t\<in>set tasks. \<exists>v. t = Inr v"
  shows "poolOk tasks p \<Longrightarrow> poolFull tasks p \<Longrightarrow>
         drain tasks sched p = map (\<lambda>t. Some (projr t)) tasks"
  using assms
proof (induction tasks sched p rule: drain.induct)
  case (1 tasks sched p)
  show ?case
  proof (cases "awaiting p = []")
    case True
    with "1.prems" have idx: "index p = length tasks"
      by (auto simp: poolOk_def poolFull_def)
    have filled: "i < length (results p) \<and> results p ! i \<noteq> None" if "i < length tasks" for i
      using that True idx "1.prems"(2) by (simp add: poolFull_def)
    have len: "length (results p) = length tasks"
    proof (cases "length tasks")
      case 0
      with "1.prems"(1) show ?thesis by (auto simp: poolOk_def)
    next
      case (Suc m)
      then have "m < length (results p)" using filled[of m] by simp
      moreover have "length (results p) \<le> length tasks"
        using "1.prems"(1) by (simp add: poolOk_def)
      ultimately show ?thesis using Suc by simp
    qed
    have "results p = map (\<lambda>t. Some (projr t)) tasks"
    proof (rule nth_equalityI)
      show "length (results p) = length (map (\<lambda>t. Some (projr t)) tasks)" using len by simp
    next
      fix i assume "i < length (results p)"
      then have i: "i < length tasks" using len by simp
      from filled[OF i] obtain v where v: "results p ! i = Some v" by auto
      with "1.prems"(1) i len have "tasks ! i = Inr v" by (simp add: poolOk_def)
      with v i show "results p ! i = map (\<lambda>t. Some (projr t)) tasks ! i" by simp
    qed
    with True show ?thesis by simp
  next
    case False
    then have j: "choice sched (length (awaiting p)) < length (awaiting p)"
      by (simp add: choice_less)
    have ok: "poolOk tasks (settle tasks (choice sched (length (awaiting p))) p)"
      using "1.prems"(1) j by (rule settle_ok)
    have full: "poolFull tasks (settle tasks (choice sched (length (awaiting p))) p)"
      using "1.prems"(3,1,2) j by (rule settle_full)
    from "1.IH"[OF False ok full "1.prems"(3)] False show ?thesis by simp
  qed
qed

lemma runWithConcurrency_all_fulfilled:
  assumes "\<forall>t\<in>set tasks. \<exists>v. t = Inr v" and "0 < limit"
  shows "runWithConcurrency tasks limit sched = map (\<lambda>t. Some (projr t)) tasks"
  unfolding runWithConcurrency_def
  by (rule drain_full[OF assms(1)])
     (rule workerLoop_pow_ok, rule init_ok, rule workerLoop_pow_full[OF assms(2)])


lemma quoteTask_ticker: "\<exists>q. quoteTask env pair = Inr q \<and> Quote.ticker q = fst pair"
  by (auto simp: quoteTask_def Let_def split: sum.splits prod.splits)

lemma normalizeTicker_pads:
  "normalizeTicker caseless (js ''5930'') = js ''005930''"
  by (simp add: normalizeTicker_def padStart0_def isDigit_def js_eval numeral_2_eq_2)

lemma drain_unfold:
  "drain tasks sched p =
     (if awaiting p = [] then results p
      else drain tasks (tl sched) (settle tasks (choice sched (length (awaiting p))) p))"
  by (rule drain.simps)

text \<open>
  C1. Whatever the configuration, the outcome of the fetches and the order in which they
  settle, \<open>fetchQuotes\<close> returns an array of the length of its input in which every slot
  holds a Quote whose ticker is the input string at that position (the original string,
  not the normalized one).
\<close>

theorem fetchQuotes_one_quote_per_ticker:
  "map (map_option Quote.ticker) (fetchQuotes U configured env sched tickers) = map Some tickers"
proof (cases "tickers = [] \<or> \<not> configured")
  case True
  then show ?thesis by (auto simp: fetchQuotes_def comp_def)
next
  case False
  let ?pairs = "map (\<lambda>tk. (tk, normalizeTicker U tk)) tickers"
  let ?tasks = "map (\<lambda>(i, pair). quoteTask (env i) pair) (enumerate 0 ?pairs)"
  have run: "fetchQuotes U configured env sched tickers = runWithConcurrency ?tasks 2 sched"
    using False by (simp add: fetchQuotes_def Let_def)
  have inr: "\<forall>t\<in>set ?tasks. \<exists>v. t = Inr v"
    using quoteTask_ticker by fastforce
  have nth: "?tasks ! i = quoteTask (env i) (tickers ! i, normalizeTicker U (tickers ! i))"
    if "i < length tickers" for i
    using that by (simp add: nth_enumerate_eq)
  have "map (map_option Quote.ticker) (map (\<lambda>t. Some (projr t)) ?tasks) = map Some tickers"
  proof (rule nth_equalityI)
    show "length (map (map_option Quote.ticker) (map (\<lambda>t. Some (projr t)) ?tasks)) =
          length (map Some tickers)" by simp
  next
    fix i assume "i < length (map (map_option Quote.ticker) (map (\<lambda>t. Some (projr t)) ?tasks))"
    then have i: "i < length tickers" by simp
    from quoteTask_ticker[of "env i" "(tickers ! i, normalizeTicker U (tickers ! i))"]
    obtain q where "quoteTask (env i) (tickers ! i, normalizeTicker U (tickers ! i)) = Inr q"
      "Quote.ticker q = tickers ! i" by auto
    with i nth[OF i]
    show "map (map_option Quote.ticker) (map (\<lambda>t. Some (projr t)) ?tasks) ! i = map Some tickers ! i"
      by simp
  qed
  with run runWithConcurrency_all_fulfilled[OF inr, of 2 sched] show ?thesis by simp
qed

theorem fetchQuotes_one_quote_per_ticker_witness:
  "normalizeTicker caseless (js ''5930'') = js ''005930'' \<and>
   map (map_option Quote.ticker)
     (fetchQuotes caseless True (\<lambda>i. failingEnv) [1, 0] [js ''5930'', js ''aapl'', js ''msft'']) =
   [Some (js ''5930''), Some (js ''aapl''), Some (js ''msft'')]"
  using fetchQuotes_one_quote_per_ticker[of caseless True "\<lambda>i. failingEnv" "[1, 0]"
      "[js ''5930'', js ''aapl'', js ''msft'']"]
  by (simp add: normalizeTicker_pads)

text \<open>
  C4. \<open>runWithConcurrency\<close> has no \<open>catch\<close>. A task that throws leaves its slot
  empty and ends the worker that ran it: with two tasks of which the first throws, slot 0
  is a hole; with three tasks of which the first two throw, both workers end and the third
  task is never run, so the result is the empty array.
\<close>

theorem throwing_task_counterexample:
  "runWithConcurrency [Inl (Thrown None), Inr exampleQuote] 2 [] = [None, Some exampleQuote] \<and>
   runWithConcurrency [Inl (Thrown None), Inl (Thrown None), Inr exampleQuote] 2 [] = []"
  by (simp add: runWithConcurrency_def numeral_2_eq_2 workerLoop_def drain_unfold settle_def
      choice_def arraySet_def Let_def)

text \<open>
  C4, amended. The catch is in the per-ticker task that \<open>fetchQuotes\<close> builds: the task
  never throws, and when its fetch throws it returns a Quote with the original ticker and
  the error note. \<open>runWithConcurrency\<close> itself always returns an array no longer than
  the task list, in which a filled slot holds the value returned by the task of that
  index (so the slot of a task that threw holds no Quote); when no task throws and the
  limit is positive, every slot is filled.
\<close>

theorem scheduler_without_catch:
  "(\<exists>q. quoteTask env pair = Inr q \<and> Quote.ticker q = fst pair \<and>
        (\<forall>e. (isKrTicker (snd pair) \<and> domesticAll env (snd pair) = Inl e) \<or>
             (\<not> isKrTicker (snd pair) \<and> overseas env (snd pair) = Inl e) \<longrightarrow>
             q = \<lparr>ticker = fst pair, price = None, changePercent = None, volume = None,
                  fundamentals = None, technical = None,
                  note_text = Some (errorNote e)\<rparr>)) \<and>
   length (runWithConcurrency tasks limit sched) \<le> length tasks \<and>
   (\<forall>i<length (runWithConcurrency tasks limit sched). \<forall>v.
       runWithConcurrency tasks limit sched ! i = Some v \<longrightarrow> tasks ! i = Inr v) \<and>
   ((\<forall>t\<in>set tasks. \<exists>v. t = Inr v) \<and> 0 < limit \<longrightarrow>
      runWithConcurrency tasks limit sched = map (\<lambda>t. Some (projr t)) tasks)"
proof -
  have task: "\<exists>q. quoteTask env pair = Inr q \<and> Quote.ticker q = fst pair \<and>
        (\<forall>e. (isKrTicker (snd pair) \<and> domesticAll env (snd pair) = Inl e) \<or>
             (\<not> isKrTicker (snd pair) \<and> overseas env (snd pair) = Inl e) \<longrightarrow>
             q = \<lparr>ticker = fst pair, price = None, changePercent = None, volume = None,
                  fundamentals = None, technical = None,
                  note_text = Some (errorNote e)\<rparr>)"
    by (auto simp: quoteTask_def Let_def split: sum.splits prod.splits)
  have full: "(\<forall>t\<in>set tasks. \<exists>v. t = Inr v) \<and> 0 < limit \<longrightarrow>
      runWithConcurrency tasks limit sched = map (\<lambda>t. Some (projr t)) tasks"
    using runWithConcurrency_all_fulfilled[of tasks limit sched] by blast
  from task runWithConcurrency_ok[of tasks limit sched] full show ?thesis by blast
qed

theorem scheduler_without_catch_witness:
  "quoteTask failingEnv (js ''5930'', js ''005930'') =
     Inr \<lparr>ticker = js ''5930'', price = None, changePercent = None, volume = None,
          fundamentals = None, technical = None, note_text = Some (js ''fetch failed'')\<rparr> \<and>
   length (runWithConcurrency [Inl (Thrown None), Inr exampleQuote] 2 [1]) \<le> 2 \<and>
   runWithConcurrency [Inr exampleQuote, Inr exampleQuote] 2 [1] =
     [Some exampleQuote, Some exampleQuote]"
proof -
  have kr: "isKrTicker (snd (js ''5930'', js ''005930''))"
    by (simp add: isKrTicker_def isDigit_def js_def)
  have e: "domesticAll failingEnv (snd (js ''5930'', js ''005930'')) =
           Inl (Thrown (Some (js ''fetch failed'')))"
    by (simp add: failingEnv_def)
  have n: "errorNote (Thrown (Some (js ''fetch failed''))) = js ''fetch failed''"
    by (simp add: errorNote_def js_def)
  from scheduler_without_catch[of failingEnv "(js ''5930'', js ''005930'')"
      "[Inl (Thrown None), Inr exampleQuote]" 2 "[1]"]
    scheduler_without_catch[of failingEnv "(js ''5930'', js ''005930'')"
      "[Inr exampleQuote, Inr exampleQuote]" 2 "[1]"]
    kr e n
  show ?thesis by auto
qed

subsection \<open>Spot quote and cache\<close>

lemma failureNote_nonempty: "failureNote payload \<noteq> []"
  by (simp add: failureNote_def js_def split: option.split)

text \<open>A successful quote is cached: a repeated fetch within the TTL makes no request.\<close>

lemma successful_quote_cached:
  assumes "quoteCache s tk = None" and "inquirePrice tk = Inr payload"
    and "rt_cd payload = Some (js ''0'')" and "u < t' + QUOTE_TTL_MS"
  shows "priceRequests (snd (fetchDomesticQuote inquirePrice u u' tk
            (snd (fetchDomesticQuote inquirePrice t t' tk s)))) = priceRequests s @ [tk]"
  using assms by (simp add: fetchDomesticQuote_def Let_def)

text \<open>
  C3. The failure Quote has only ticker and note, but it is not stored: on a non-success
  status \<open>fetchDomesticQuote\<close> returns before \<open>quoteCache.set\<close>. With an empty cache
  and an endpoint answering \<open>rt_cd = "1"\<close>, the cache has no entry for the ticker after
  the fetch, and a second fetch 200 ms later calls the endpoint again.
\<close>

theorem failed_quote_not_cached_counterexample:
  "fst (fetchDomesticQuote rejectedPrice 0 120 (js ''005930'') coldKis) =
     Inr \<lparr>ticker = js ''005930'', price = None, changePercent = None, volume = None,
          fundamentals = None, technical = None, note_text = Some (js ''rate limit'')\<rparr> \<and>
   quoteCache (snd (fetchDomesticQuote rejectedPrice 0 120 (js ''005930'') coldKis))
     (js ''005930'') = None \<and>
   priceRequests (snd (fetchDomesticQuote rejectedPrice 200 320 (js ''005930'')
       (snd (fetchDomesticQuote rejectedPrice 0 120 (js ''005930'') coldKis)))) =
     [js ''005930'', js ''005930'']"
  by (simp add: fetchDomesticQuote_def rejectedPrice_def coldKis_def failureNote_def Let_def js_def)

text \<open>
  C3, amended. When the cache has no live entry for the ticker and the spot-quote endpoint
  answers with a status other than \<open>"0"\<close>, \<open>fetchDomesticQuote\<close> returns a Quote with
  only the ticker and a non-empty note, makes one request and leaves the quote cache as it
  was; a repeated fetch at any later time calls the endpoint again.
\<close>

theorem failed_quote_not_cached:
  assumes miss: "\<forall>data expiresAt. quoteCache s tk = Some (data, expiresAt) \<longrightarrow> expiresAt \<le> t"
    and resp: "inquirePrice tk = Inr payload"
    and fail: "rt_cd payload \<noteq> Some (js ''0'')"
  shows "fetchDomesticQuote inquirePrice t t' tk s =
       (Inr \<lparr>ticker = tk, price = None, changePercent = None, volume = None,
             fundamentals = None, technical = None, note_text = Some (failureNote payload)\<rparr>,
        s\<lparr>priceRequests := priceRequests s @ [tk]\<rparr>) \<and>
     failureNote payload \<noteq> [] \<and>
     (t \<le> u \<longrightarrow>
        priceRequests (snd (fetchDomesticQuote inquirePrice u u' tk
            (snd (fetchDomesticQuote inquirePrice t t' tk s)))) =
        priceRequests s @ [tk, tk])"
proof -
  have c: "(case quoteCache s tk of None \<Rightarrow> None
            | Some (data, expiresAt) \<Rightarrow> if expiresAt > v then Some data else None) = None"
    if "t \<le> v" for v
  proof (cases "quoteCache s tk")
    case None
    then show ?thesis by simp
  next
    case (Some de)
    obtain d e where de: "de = (d, e)" by (cases de)
    with Some miss have "e \<le> t" by simp
    with that Some de show ?thesis by simp
  qed
  have first: "fetchDomesticQuote inquirePrice v v' tk (s\<lparr>priceRequests := rq\<rparr>) =
       (Inr \<lparr>ticker = tk, price = None, changePercent = None, volume = None,
             fundamentals = None, technical = None, note_text = Some (failureNote payload)\<rparr>,
        s\<lparr>priceRequests := rq @ [tk]\<rparr>)" if "t \<le> v" for v v' rq
    using c[OF that] resp fail by (simp add: fetchDomesticQuote_def Let_def)
  have s: "s\<lparr>priceRequests := priceRequests s\<rparr> = s" by simp
  from first[of t t' "priceRequests s"] have f1:
    "fetchDomesticQuote inquirePrice t t' tk s =
       (Inr \<lparr>ticker = tk, price = None, changePercent = None, volume = None,
             fundamentals = None, technical = None, note_text = Some (failureNote payload)\<rparr>,
        s\<lparr>priceRequests := priceRequests s @ [tk]\<rparr>)"
    by (simp add: s)
  show ?thesis
    using f1 first[of u u' "priceRequests s @ [tk]"] failureNote_nonempty[of payload] by simp
qed

theorem failed_quote_not_cached_witness:
  "fetchDomesticQuote rejectedPrice 0 120 (js ''005930'') coldKis =
       (Inr \<lparr>ticker = js ''005930'', price = None, changePercent = None, volume = None,
             fundamentals = None, technical = None,
             note_text = Some (failureNote \<lparr>rt_cd = Some (js ''1''),
               msg1 = Some (js ''rate limit''), stck_prpr = None, prdy_ctrt = None,
               acml_vol = None\<rparr>)\<rparr>,
        coldKis\<lparr>priceRequests := priceRequests coldKis @ [js ''005930'']\<rparr>) \<and>
   priceRequests (snd (fetchDomesticQuote rejectedPrice 200 320 (js ''005930'')
       (snd (fetchDomesticQuote rejectedPrice 0 120 (js ''005930'') coldKis)))) =
     priceRequests coldKis @ [js ''005930'', js ''005930'']"
proof -
  have miss: "\<forall>data expiresAt. quoteCache coldKis (js ''005930'') = Some (data, expiresAt) \<longrightarrow>
                expiresAt \<le> 0"
    by (simp add: coldKis_def)
  have resp: "rejectedPrice (js ''005930'') = Inr \<lparr>rt_cd = Some (js ''1''),
      msg1 = Some (js ''rate limit''), stck_prpr = None, prdy_ctrt = None, acml_vol = None\<rparr>"
    by (simp add: rejectedPrice_def)
  have fail: "rt_cd \<lparr>rt_cd = Some (js ''1''), msg1 = Some (js ''rate limit''),
      stck_prpr = None, prdy_ctrt = None, acml_vol = None\<rparr> \<noteq> Some (js ''0'')"
    by (simp add: js_def)
  have le: "(0::real) \<le> 200" by simp
  from le failed_quote_not_cached[where s = coldKis and tk = "js ''005930''" and t = 0
      and inquirePrice = rejectedPrice and t' = 120 and u = 200 and u' = 320
      and payload = "\<lparr>rt_cd = Some (js ''1''), msg1 = Some (js ''rate limit''),
        stck_prpr = None, prdy_ctrt = None, acml_vol = None\<rparr>", OF miss resp fail]
  show ?thesis by blast
qed

subsection \<open>Daily bars\<close>

lemma insertSorted_mset: "mset (insertSorted cmp x xs) = add_mset x (mset xs)"
  by (induction xs) simp_all

lemma insertSorted_set: "set (insertSorted cmp x xs) = insert x (set xs)"
  by (induction xs) auto

lemma arraySort_mset: "mset (arraySort cmp xs) = mset xs"
  unfolding arraySort_def by (induction xs) (simp_all add: insertSorted_mset)

lemma arraySort_Nil: "arraySort cmp [] = []"
  by (simp add: arraySort_def)

lemma arraySort_set: "set (arraySort cmp xs) = set xs"
  using arraySort_mset[of cmp xs] by (rule mset_eq_setD)

lemma insertSorted_sorted:
  assumes total: "\<forall>a b. cmp a b \<le> 0 \<or> cmp b a \<le> 0"
    and trans: "\<forall>a b c. cmp a b \<le> 0 \<and> cmp b c \<le> 0 \<longrightarrow> cmp a c \<le> 0"
  shows "sorted_wrt (\<lambda>a b. cmp a b \<le> 0) xs \<Longrightarrow>
         sorted_wrt (\<lambda>a b. cmp a b \<le> 0) (insertSorted cmp x xs)"
proof (induction xs)
  case Nil
  then show ?case by simp
next
  case (Cons y ys)
  show ?case
  proof (cases "cmp x y \<le> 0")
    case True
    have "cmp x z \<le> 0" if "z \<in> set ys" for z
    proof -
      from Cons.prems that have "cmp y z \<le> 0" by simp
      with True trans show ?thesis by blast
    qed
    with True Cons.prems show ?thesis by simp
  next
    case False
    with total have "cmp y x \<le> 0" by blast
    with False Cons show ?thesis by (simp add: insertSorted_set)
  qed
qed

lemma arraySort_sorted:
  assumes "\<forall>a b. cmp a b \<le> 0 \<or> cmp b a \<le> 0"
    and "\<forall>a b c. cmp a b \<le> 0 \<and> cmp b c \<le> 0 \<longrightarrow> cmp a c \<le> 0"
  shows "sorted_wrt (\<lambda>a b. cmp a b \<le> 0) (arraySort cmp xs)"
  unfolding arraySort_def
  by (induction xs) (simp_all add: insertSorted_sorted[OF assms])

lemma those_map_Some: "those (map Some xs) = Some xs"
  by (induction xs) simp_all

lemma codePointCompare_total: "codePointCompare a b \<le> 0 \<or> codePointCompare b a \<le> 0"
  by (induction a b rule: codePointCompare.induct) auto

lemma codePointCompare_trans:
  "codePointCompare a b \<le> 0 \<Longrightarrow> codePointCompare b c \<le> 0 \<Longrightarrow> codePointCompare a c \<le> 0"
proof (induction a b arbitrary: c rule: codePointCompare.induct)
  case 1
  then show ?case by simp
next
  case (2 y ys)
  then show ?case by (cases c) simp_all
next
  case (3 x xs)
  then show ?case by simp
next
  case (4 x xs y ys)
  from "4.prems"(1) have xy: "x \<le> y" by (simp split: if_splits)
  show ?case
  proof (cases c)
    case Nil
    with "4.prems"(2) show ?thesis by simp
  next
    case (Cons z zs)
    with "4.prems"(2) have yz: "y \<le> z" by (simp split: if_splits)
    show ?thesis
    proof (cases "x < z")
      case True
      with Cons show ?thesis by simp
    next
      case False
      with xy yz have e: "x = y" "y = z" by simp_all
      with "4.prems" Cons have "codePointCompare xs ys \<le> 0" "codePointCompare ys zs \<le> 0"
        by simp_all
      with "4.IH"[of zs] e have "codePointCompare xs zs \<le> 0" by simp
      with e Cons show ?thesis by simp
    qed
  qed
qed

text \<open>
  C8. Nothing in \<open>fetchDomesticDailyBars\<close> removes duplicates: a row that the upstream
  response repeats appears twice in the bar sequence.
\<close>

theorem duplicate_rows_counterexample:
  "fetchDomesticDailyBars codePointCompare
     (exampleChart [Some (exampleRow (js ''20240102'') 100), Some (exampleRow (js ''20240102'') 100)])
     (js ''005930'') =
   Inr [toBar (exampleRow (js ''20240102'') 100), toBar (exampleRow (js ''20240102'') 100)]"
  by (simp add: fetchDomesticDailyBars_def exampleChart_def exampleRow_def toBar_def orZero_def
      arraySort_def Let_def js_def)

text \<open>
  C8, amended. For a consistent \<open>localeCompare\<close> (total and transitive), the bar sequence
  that \<open>fetchDomesticDailyBars\<close> returns is ordered ascending by date and has no bar with
  an empty date or a non-positive close; it is not deduplicated: when the response has
  status \<open>"0"\<close> it consists of exactly the bars of the remaining rows, each as often as
  the response has it.
\<close>

theorem dailyBars_sorted_filtered:
  assumes total: "\<forall>a b. lc a b \<le> 0 \<or> lc b a \<le> 0"
    and trans: "\<forall>a b c. lc a b \<le> 0 \<and> lc b c \<le> 0 \<longrightarrow> lc a c \<le> 0"
    and ret: "fetchDomesticDailyBars lc dailyChart tk = Inr bars"
  shows "sorted_wrt (\<lambda>a b. lc (date a) (date b) \<le> 0) bars \<and>
     (\<forall>b\<in>set bars. date b \<noteq> [] \<and> 0 < close b) \<and>
     (dailyChart tk = Inr payload \<and> daily_rt_cd payload = Some (js ''0'') \<and>
      output2 payload = Some (map Some rows) \<longrightarrow>
        mset bars = mset (filter (\<lambda>bar. date bar \<noteq> [] \<and> close bar > 0) (map toBar rows)))"
proof -
  let ?cmp = "\<lambda>a b. lc (date a) (date b)"
  let ?keep = "\<lambda>bar. date bar \<noteq> [] \<and> close bar > 0"
  have t1: "\<forall>a b. ?cmp a b \<le> 0 \<or> ?cmp b a \<le> 0" using total by blast
  have t2: "\<forall>a b c. ?cmp a b \<le> 0 \<and> ?cmp b c \<le> 0 \<longrightarrow> ?cmp a c \<le> 0" using trans by blast
  have shape: "\<exists>rs. bars = arraySort ?cmp (filter ?keep (map toBar rs))"
  proof (cases "dailyChart tk")
    case (Inl e)
    with ret show ?thesis by (simp add: fetchDomesticDailyBars_def)
  next
    case (Inr p)
    show ?thesis
    proof (cases "daily_rt_cd p = Some (js ''0'')")
      case False
      with ret Inr have "bars = []" by (simp add: fetchDomesticDailyBars_def)
      then have "bars = arraySort ?cmp (filter ?keep (map toBar []))"
        by (simp add: arraySort_Nil)
      then show ?thesis by (rule exI)
    next
      case True
      define out2 where "out2 = (case output2 p of None \<Rightarrow> [] | Some rows \<Rightarrow> rows)"
      from ret Inr True have
        "(case those out2 of None \<Rightarrow> False
          | Some rows \<Rightarrow> bars = arraySort ?cmp (filter ?keep (map toBar rows)))"
        by (simp add: fetchDomesticDailyBars_def Let_def out2_def split: option.splits)
      then show ?thesis by (cases "those out2") auto
    qed
  qed
  then obtain rs where rs: "bars = arraySort ?cmp (filter ?keep (map toBar rs))" by blast
  have sorted: "sorted_wrt (\<lambda>a b. ?cmp a b \<le> 0) bars"
    unfolding rs by (rule arraySort_sorted[OF t1 t2])
  have kept: "\<forall>b\<in>set bars. ?keep b"
    unfolding rs by (simp add: arraySort_set)
  have all: "dailyChart tk = Inr payload \<and> daily_rt_cd payload = Some (js ''0'') \<and>
      output2 payload = Some (map Some rows) \<longrightarrow>
        mset bars = mset (filter ?keep (map toBar rows))"
    using ret by (auto simp: fetchDomesticDailyBars_def Let_def those_map_Some arraySort_mset)
  from sorted kept all show ?thesis by blast
qed

theorem dailyBars_sorted_filtered_witness:
  "fetchDomesticDailyBars codePointCompare
     (exampleChart [Some (exampleRow (js ''20240103'') 101), Some (exampleRow [] 5),
                    Some (exampleRow (js ''20240102'') 0), Some (exampleRow (js ''20240102'') 100)])
     (js ''005930'') =
   Inr [toBar (exampleRow (js ''20240102'') 100), toBar (exampleRow (js ''20240103'') 101)] \<and>
   sorted_wrt (\<lambda>a b. codePointCompare (date a) (date b) \<le> 0)
     [toBar (exampleRow (js ''20240102'') 100), toBar (exampleRow (js ''20240103'') 101)]"
proof -
  have total: "\<forall>a b. codePointCompare a b \<le> 0 \<or> codePointCompare b a \<le> 0"
    using codePointCompare_total by blast
  have trans: "\<forall>a b c. codePointCompare a b \<le> 0 \<and> codePointCompare b c \<le> 0 \<longrightarrow>
                 codePointCompare a c \<le> 0"
    using codePointCompare_trans by blast
  have ret: "fetchDomesticDailyBars codePointCompare
     (exampleChart [Some (exampleRow (js ''20240103'') 101), Some (exampleRow [] 5),
                    Some (exampleRow (js ''20240102'') 0), Some (exampleRow (js ''20240102'') 100)])
     (js ''005930'') =
   Inr [toBar (exampleRow (js ''20240102'') 100), toBar (exampleRow (js ''20240103'') 101)]"
    by (simp add: fetchDomesticDailyBars_def exampleChart_def exampleRow_def toBar_def orZero_def
      arraySort_def Let_def js_def)
  from dailyBars_sorted_filtered[OF total trans ret] ret show ?thesis by blast
qed

subsection \<open>Credential manager\<close>

lemma tokenRun_append: "tokenRun (xs @ ys) s = tokenRun ys (tokenRun xs s)"
  by (simp add: tokenRun_def)

lemma tokenRun_Cons: "tokenRun (e # es) s = tokenRun es (tokenStep s e)"
  by (simp add: tokenRun_def)

lemma tokenRun_Nil: "tokenRun [] s = s"
  by (simp add: tokenRun_def)

lemma settleFlight_ok: "tokenInFlight (settleFlight r s) = None"
  by (simp add: settleFlight_def split: option.split)





text \<open>A caller that arrives during a refresh is handed the pending promise.\<close>

lemma calls_join:
  "validToken s t = None \<Longrightarrow> tokenInFlight s = Some f \<Longrightarrow>
   getAccessToken c t s = s\<lparr>tokenInFlight := Some (f\<lparr>waiters := waiters f @ [c]\<rparr>)\<rparr>"
  by (simp add: getAccessToken_def)

lemma calls_cold:
  "cts \<noteq> [] \<Longrightarrow>
   tokenRun (map (\<lambda>(c, t). Call c t) cts) coldToken =
     \<lparr>cachedToken = None,
      tokenInFlight = Some \<lparr>attempt = 0, phase = Requesting, lastError = None,
                             waiters = map fst cts\<rparr>,
      tokenRequests = 1, outstanding = 1, delivered = Map.empty\<rparr>"
proof (induction cts rule: rev_induct)
  case Nil
  then show ?case by simp
next
  case (snoc ct cts)
  obtain c t where ct: "ct = (c, t)" by (cases ct)
  show ?case
  proof (cases "cts = []")
    case True
    then show ?thesis
      by (simp add: ct tokenRun_def tokenStep_def getAccessToken_def validToken_def coldToken_def)
  next
    case False
    from snoc.IH[OF False] show ?thesis
      by (simp add: ct tokenRun_append tokenRun_Cons tokenRun_Nil tokenStep_def
          getAccessToken_def validToken_def)
  qed
qed





lemma response_progress:
  assumes "tokenInFlight s = Some f" "phase f = Requesting"
  shows "tokenInFlight (onTokenResponse r t s) = None \<or>
     (\<exists>f'. tokenInFlight (onTokenResponse r t s) = Some f' \<and> phase f' = Sleeping \<and>
           attempt f' = attempt f)"
proof (cases r)
  case (Threw e)
  with assms show ?thesis by (simp add: onTokenResponse_def Let_def settleFlight_ok)
next
  case NotOk
  with assms show ?thesis by (simp add: onTokenResponse_def Let_def)
next
  case (Body tok ex)
  show ?thesis
  proof (cases tok)
    case None
    with Body assms show ?thesis by (simp add: onTokenResponse_def Let_def)
  next
    case (Some token)
    with Body assms show ?thesis
      by (cases "token = []") (simp_all add: onTokenResponse_def Let_def settleFlight_ok)
  qed
qed

lemma wake_progress:
  assumes "tokenInFlight s = Some f" "phase f = Sleeping"
  shows "(attempt f = 0 \<longrightarrow> (\<exists>f'. tokenInFlight (onWake s) = Some f' \<and> phase f' = Requesting \<and>
            attempt f' = 1)) \<and>
         (0 < attempt f \<longrightarrow> tokenInFlight (onWake s) = None)"
  using assms by (auto simp: onWake_def settleFlight_ok)

text \<open>
  A refresh always settles: after the answer to its first request, its first sleep, the
  answer to its second request and its second sleep, at the latest.
\<close>

lemma refresh_settles:
  assumes "cts \<noteq> []"
  shows "tokenInFlight (tokenRun (map (\<lambda>(c, t). Call c t) cts @
       [Response r1 t1, Wake, Response r2 t2, Wake]) coldToken) = None"
proof -
  define s0 where "s0 = tokenRun (map (\<lambda>(c, t). Call c t) cts) coldToken"
  define s1 where "s1 = onTokenResponse r1 t1 s0"
  define s2 where "s2 = onWake s1"
  define s3 where "s3 = onTokenResponse r2 t2 s2"
  define s4 where "s4 = onWake s3"
  have run: "tokenRun (map (\<lambda>(c, t). Call c t) cts @
       [Response r1 t1, Wake, Response r2 t2, Wake]) coldToken = s4"
    by (simp add: tokenRun_append tokenRun_Cons tokenRun_Nil tokenStep_def
        s0_def s1_def s2_def s3_def s4_def)
  obtain f0 where f0: "tokenInFlight s0 = Some f0" "phase f0 = Requesting" "attempt f0 = 0"
    unfolding s0_def calls_cold[OF assms] by simp
  have idle_wake: "tokenInFlight (onWake s) = None" if "tokenInFlight s = None" for s
    using that by (simp add: onWake_def)
  have idle_resp: "tokenInFlight (onTokenResponse r t s) = None"
    if "tokenInFlight s = None" for s r t
    using that by (simp add: onTokenResponse_def)
  from response_progress[OF f0(1,2), of r1 t1]
  consider "tokenInFlight s1 = None"
    | f1 where "tokenInFlight s1 = Some f1" "phase f1 = Sleeping" "attempt f1 = 0"
    unfolding s1_def using f0(3) by auto
  then have "tokenInFlight s4 = None"
  proof cases
    case 1
    then show ?thesis unfolding s4_def s3_def s2_def
      by (intro idle_wake idle_resp)
  next
    case 2
    from wake_progress[OF 2(1,2)] 2(3) obtain f2 where
      f2: "tokenInFlight s2 = Some f2" "phase f2 = Requesting" "attempt f2 = 1"
      unfolding s2_def by auto
    from response_progress[OF f2(1,2), of r2 t2]
    consider "tokenInFlight s3 = None"
      | f3 where "tokenInFlight s3 = Some f3" "phase f3 = Sleeping" "attempt f3 = 1"
      unfolding s3_def using f2(3) by auto
    then show ?thesis
    proof cases
      case 1
      then show ?thesis unfolding s4_def by (rule idle_wake)
    next
      case 2
      from wake_progress[OF 2(1,2)] 2(3) show ?thesis unfolding s4_def by simp
    qed
  qed
  with run show ?thesis by simp
qed

















end
